theory Spec2Isabelle
  imports Main "HOL-Library.Monad_Syntax"
begin

section \<open>Availability materialisation: \<open>getAvailability\<close>\<close>

text \<open>
  The development embeds \<open>getAvailability\<close> of
  \<open>packages/features/bookings/lib/getBookingFields.ts\<close> (lines 248 to 308). The
  function expands recurring weekly rules over a range of UTC calendar days, expands
  date overrides, merges both day-keyed records with an object spread and flattens the
  values.

  The function is written against the Day.js library with its \<open>utc\<close> and
  \<open>timezone\<close> plugins, and against the JavaScript \<open>Date\<close> object. Neither is part of
  the source file, so the operations the function calls are modelled here, under these
  conventions:
  \<^item> a \<open>Date\<close> is its time value, a whole number of milliseconds since the epoch
    (\<open>int\<close>); the invalid \<open>Date\<close> is outside the model, and so is a
    \<open>dateFrom\<close> outside the years 0100 to 9999, whose date-only ISO string
    \<open>dayjs.utc\<close> does not read back as the same day;
  \<^item> a time zone is taken as resolved by the host's zone database: it is the function
    from an instant (milliseconds) to the zone's UTC offset (minutes) at that instant;
    an identifier the database does not know makes the library throw and is outside the
    model;
  \<^item> the host's own zone is UTC, so the local fields of the \<open>Date\<close> inside a Day.js
    value are the fields of its wall-clock reading;
  \<^item> a Day.js value is the pair of its wall-clock reading (milliseconds, read as if
    UTC) and its UTC offset (minutes, the \<open>$offset\<close> field). All getters and
    \<open>format\<close> read the wall clock; \<open>valueOf\<close> subtracts the offset.

  The function is embedded twice. The first embedding is a function on values and
  carries the properties of the result. The second runs the same statements on a store
  of objects with addresses; it carries the property that the function writes to no
  object of its caller, and it is shown to return what the first one computes.
\<close>

subsection \<open>JavaScript \<open>Date\<close>\<close>

type_synonym Date = int

definition MS_A_MINUTE :: int where
  "MS_A_MINUTE = 60000"

definition MS_A_HOUR :: int where
  "MS_A_HOUR = 3600000"

definition MS_A_DAY :: int where
  "MS_A_DAY = 86400000"

definition getUTCHours :: "Date \<Rightarrow> int" where
  "getUTCHours t = (t div MS_A_HOUR) mod 24"

definition getUTCMinutes :: "Date \<Rightarrow> int" where
  "getUTCMinutes t = (t div MS_A_MINUTE) mod 60"

definition getUTCSeconds :: "Date \<Rightarrow> int" where
  "getUTCSeconds t = (t div 1000) mod 60"

definition getUTCMilliseconds :: "Date \<Rightarrow> int" where
  "getUTCMilliseconds t = t mod 1000"

text \<open>
  The civil date of a day number (days since 1970-01-01) in the proleptic Gregorian
  calendar, as ECMAScript's \<open>YearFromTime\<close>, \<open>MonthFromTime\<close> and \<open>DateFromTime\<close>
  give it: year, month (1 to 12), day of the month.
\<close>

definition civil_from_days :: "int \<Rightarrow> int \<times> int \<times> int" where
  "civil_from_days n =
     (let z = n + 719468;
          era = z div 146097;
          doe = z - era * 146097;
          yoe = (doe - doe div 1460 + doe div 36524 - doe div 146096) div 365;
          y = yoe + era * 400;
          doy = doe - (365 * yoe + yoe div 4 - yoe div 100);
          mp = (5 * doy + 2) div 153;
          d = doy - (153 * mp + 2) div 5 + 1;
          m = (if mp < 10 then mp + 3 else mp - 9)
      in (if m \<le> 2 then y + 1 else y, m, d))"

subsection \<open>Strings of numbers\<close>

definition digit_char :: "nat \<Rightarrow> char" where
  "digit_char n = char_of (48 + n)"

fun digits_of :: "nat \<Rightarrow> string" where
  "digits_of n = (if n < 10 then [digit_char n] else digits_of (n div 10) @ [digit_char (n mod 10)])"

declare digits_of.simps [simp del]

text \<open>\<open>String(n)\<close> for a whole number.\<close>

definition String_of :: "int \<Rightarrow> string" where
  "String_of n = (if n < 0 then CHR ''-'' # digits_of (nat (- n)) else digits_of (nat n))"

text \<open>\<open>s.padStart(n, c)\<close> with a one-character pad.\<close>

definition padStart :: "nat \<Rightarrow> char \<Rightarrow> string \<Rightarrow> string" where
  "padStart n c s = replicate (n - length s) c @ s"

subsection \<open>Day.js values\<close>

type_synonym timezone = "int \<Rightarrow> int"

record Dayjs =
  wall :: int
  utcOffset :: int

definition valueOf :: "Dayjs \<Rightarrow> int" where
  "valueOf x = wall x - utcOffset x * MS_A_MINUTE"

definition isBefore :: "Dayjs \<Rightarrow> Dayjs \<Rightarrow> bool" where
  "isBefore x y = (valueOf x < valueOf y)"

text \<open>\<open>dayjs.utc(s)\<close> for the ISO string of the instant \<open>t\<close>.\<close>

definition dayjs_utc :: "Date \<Rightarrow> Dayjs" where
  "dayjs_utc t = \<lparr>wall = t, utcOffset = 0\<rparr>"

text \<open>
  \<open>d.toISOString().substring(0, 10)\<close> is the UTC calendar date of \<open>d\<close>; parsed by
  \<open>dayjs.utc\<close> it is that day's UTC midnight. \<open>toISOdate\<close> is the time value of
  the parsed string, for a \<open>d\<close> of the years 0100 to 9999.
\<close>

definition toISOdate :: "Date \<Rightarrow> Date" where
  "toISOdate t = t - t mod MS_A_DAY"

text \<open>\<open>x.add(n, "day")\<close> and \<open>x.add(n, "minutes")\<close>: the offset is kept.\<close>

definition add_day :: "int \<Rightarrow> Dayjs \<Rightarrow> Dayjs" where
  "add_day n x = x\<lparr>wall := wall x + n * MS_A_DAY\<rparr>"

definition add_minutes :: "int \<Rightarrow> Dayjs \<Rightarrow> Dayjs" where
  "add_minutes n x = x\<lparr>wall := wall x + n * MS_A_MINUTE\<rparr>"

text \<open>
  \<open>x.tz(timeZone, true)\<close>: the wall clock is kept, and the offset becomes the one the
  zone has at the instant of \<open>x\<close>.
\<close>

definition tz_keepLocalTime :: "timezone \<Rightarrow> Dayjs \<Rightarrow> Dayjs" where
  "tz_keepLocalTime timeZone x = \<lparr>wall = wall x, utcOffset = timeZone (valueOf x)\<rparr>"

text \<open>
  \<open>dayjs.tz(d, timeZone)\<close> for a \<open>Date\<close> \<open>d\<close>: the input is not a string, so the
  library evaluates \<open>dayjs(d).tz(timeZone)\<close>, which converts the instant into the zone.
\<close>

definition dayjs_tz :: "Date \<Rightarrow> timezone \<Rightarrow> Dayjs" where
  "dayjs_tz d timeZone = \<lparr>wall = d + timeZone d * MS_A_MINUTE, utcOffset = timeZone d\<rparr>"

text \<open>The getters, all on the wall clock.\<close>

definition hour :: "Dayjs \<Rightarrow> int" where
  "hour x = (wall x div MS_A_HOUR) mod 24"

definition minute :: "Dayjs \<Rightarrow> int" where
  "minute x = (wall x div MS_A_MINUTE) mod 60"

definition second :: "Dayjs \<Rightarrow> int" where
  "second x = (wall x div 1000) mod 60"

definition millisecond :: "Dayjs \<Rightarrow> int" where
  "millisecond x = wall x mod 1000"

text \<open>\<open>x.day()\<close>: the day of the week, 0 for Sunday; 1970-01-01 was a Thursday.\<close>

definition day :: "Dayjs \<Rightarrow> int" where
  "day x = (wall x div MS_A_DAY + 4) mod 7"

text \<open>\<open>x.hour(h)\<close> and \<open>x.minute(m)\<close>: one field of the wall clock is overwritten.\<close>

definition set_hour :: "int \<Rightarrow> Dayjs \<Rightarrow> Dayjs" where
  "set_hour h x = x\<lparr>wall := wall x - hour x * MS_A_HOUR + h * MS_A_HOUR\<rparr>"

definition set_minute :: "int \<Rightarrow> Dayjs \<Rightarrow> Dayjs" where
  "set_minute m x = x\<lparr>wall := wall x - minute x * MS_A_MINUTE + m * MS_A_MINUTE\<rparr>"

text \<open>\<open>x.format("YYYY-MM-DD")\<close>.\<close>

definition format_YYYY_MM_DD :: "Dayjs \<Rightarrow> string" where
  "format_YYYY_MM_DD x =
     (case civil_from_days (wall x div MS_A_DAY) of
        (y, m, d) \<Rightarrow>
          padStart 4 CHR ''0'' (String_of y) @ ''-'' @
          padStart 2 CHR ''0'' (String_of m) @ ''-'' @
          padStart 2 CHR ''0'' (String_of d))"

subsection \<open>Objects keyed by date strings\<close>

text \<open>
  A \<open>Record<string, V>\<close> is an association list in insertion order, with distinct
  keys. The keys here are \<open>YYYY-MM-DD\<close> strings, which are never array indices, so
  JavaScript enumerates them in insertion order.
\<close>

type_synonym 'v obj = "(string \<times> 'v) list"

text \<open>\<open>o[k] = v\<close>: an existing key keeps its place, a new key goes last.\<close>

fun obj_set :: "string \<Rightarrow> 'v \<Rightarrow> 'v obj \<Rightarrow> 'v obj" where
  "obj_set k v [] = [(k, v)]"
| "obj_set k v ((k', v') # kvs) =
     (if k' = k then (k, v) # kvs else (k', v') # obj_set k v kvs)"

text \<open>\<open>{...a, ...b}\<close>: the properties of \<open>a\<close>, then those of \<open>b\<close>, copied in order.\<close>

definition spread2 :: "'v obj \<Rightarrow> 'v obj \<Rightarrow> 'v obj" where
  "spread2 a b = fold (\<lambda>(k, v). obj_set k v) (a @ b) []"

text \<open>\<open>Object.values(o).flat()\<close>.\<close>

definition values_flat :: "'v list obj \<Rightarrow> 'v list" where
  "values_flat m = concat (map snd m)"

subsection \<open>The function\<close>

record AvailabilityRule =
  startTime :: Date
  endTime :: Date
  date :: "Date option"
  days :: "int list option"

record Interval =
  start :: Dayjs
  end' :: Dayjs

text \<open>
  The two statements that file an interval under a key:
  \<open>dates[k] = dates[k] ?? []\<close> and \<open>dates[k].push(i)\<close>.
\<close>

definition push_under :: "string \<Rightarrow> Interval \<Rightarrow> Interval list obj \<Rightarrow> Interval list obj" where
  "push_under k i dates =
     (let dates1 = obj_set k (case map_of dates k of Some v \<Rightarrow> v | None \<Rightarrow> []) dates
      in case map_of dates1 k of
           Some v \<Rightarrow> obj_set k (v @ [i]) dates1
         | None \<Rightarrow> dates1)"

text \<open>The time of day of a stored \<open>Date\<close>, in minutes.\<close>

definition minutes_of :: "Date \<Rightarrow> int" where
  "minutes_of t = getUTCHours t * 60 + getUTCMinutes t"

text \<open>Lines 267 to 269 and 274 to 276: the ends of a recurring interval on a walked day.\<close>

definition working_start :: "timezone \<Rightarrow> AvailabilityRule \<Rightarrow> Dayjs \<Rightarrow> Dayjs" where
  "working_start timeZone block d =
     add_minutes (minutes_of (startTime block)) (tz_keepLocalTime timeZone d)"

definition working_end :: "timezone \<Rightarrow> AvailabilityRule \<Rightarrow> Dayjs \<Rightarrow> Dayjs" where
  "working_end timeZone block d =
     add_minutes (minutes_of (endTime block)) (tz_keepLocalTime timeZone d)"

text \<open>\<open>block.days?.includes(n)\<close>.\<close>

definition days_includes :: "int list option \<Rightarrow> int \<Rightarrow> bool" where
  "days_includes ds n = (case ds of None \<Rightarrow> False | Some xs \<Rightarrow> n \<in> set xs)"

text \<open>The body of the \<open>for\<close> loop, lines 267 to 278.\<close>

definition working_body ::
  "timezone \<Rightarrow> AvailabilityRule \<Rightarrow> Dayjs \<Rightarrow> Interval list obj \<Rightarrow> Interval list obj" where
  "working_body timeZone block d dates =
     (let startDate = working_start timeZone block d
      in if days_includes (days block) (day startDate)
         then push_under (format_YYYY_MM_DD startDate)
                \<lparr>start = startDate, end' = working_end timeZone block d\<rparr> dates
         else dates)"

text \<open>
  The \<open>for\<close> loop of lines 262 to 279: \<open>d\<close> is the loop variable \<open>date\<close>, and
  \<open>dateTo\<close> is \<open>dayjs.utc(dateTo.toISOString())\<close>.
\<close>

function for_each_day ::
  "(Dayjs \<Rightarrow> 'a \<Rightarrow> 'a) \<Rightarrow> Dayjs \<Rightarrow> Dayjs \<Rightarrow> 'a \<Rightarrow> 'a" where
  "for_each_day body dateTo d acc =
     (if isBefore d dateTo then for_each_day body dateTo (add_day 1 d) (body d acc) else acc)"
  by pat_completeness auto
termination
  by (relation "measure (\<lambda>(body, dateTo, d, acc). nat (valueOf dateTo - valueOf d))")
     (auto simp: isBefore_def valueOf_def add_day_def MS_A_DAY_def)

declare for_each_day.simps [simp del]

text \<open>Lines 259 to 281.\<close>

definition workingDates ::
  "timezone \<Rightarrow> AvailabilityRule list \<Rightarrow> Date \<Rightarrow> Date \<Rightarrow> Interval list obj" where
  "workingDates timeZone availability dateFrom dateTo =
     fold (\<lambda>block dates.
             for_each_day (working_body timeZone block) (dayjs_utc dateTo)
               (dayjs_utc (toISOdate dateFrom)) dates)
          (filter (\<lambda>v. days v \<noteq> None) availability) []"

text \<open>Lines 286 to 289 and 294 to 297: the ends of an override interval.\<close>

definition override_start :: "timezone \<Rightarrow> Date \<Rightarrow> Date \<Rightarrow> Dayjs" where
  "override_start timeZone d t =
     set_minute (getUTCMinutes t) (set_hour (getUTCHours t) (dayjs_tz d timeZone))"

definition override_interval :: "timezone \<Rightarrow> Date \<Rightarrow> AvailabilityRule \<Rightarrow> Interval" where
  "override_interval timeZone d override =
     \<lparr>start = override_start timeZone d (startTime override),
      end' = override_start timeZone d (endTime override)\<rparr>"

text \<open>
  The callback of the second \<open>reduce\<close>, lines 285 to 300. The filter before it keeps
  only rules whose \<open>date\<close> is truthy, so the callback never sees a \<open>null\<close> date.
\<close>

definition override_body ::
  "timezone \<Rightarrow> AvailabilityRule \<Rightarrow> Interval list obj \<Rightarrow> Interval list obj" where
  "override_body timeZone override dates =
     (case date override of
        None \<Rightarrow> dates
      | Some d \<Rightarrow>
          (let i = override_interval timeZone d override
           in push_under (format_YYYY_MM_DD (start i)) i dates))"

definition dateOverrides :: "timezone \<Rightarrow> AvailabilityRule list \<Rightarrow> Interval list obj" where
  "dateOverrides timeZone availability =
     fold (override_body timeZone) (filter (\<lambda>a. date a \<noteq> None) availability) []"

text \<open>Lines 302 to 307.\<close>

definition getAvailability ::
  "timezone \<Rightarrow> AvailabilityRule list \<Rightarrow> Date \<Rightarrow> Date \<Rightarrow> Interval list" where
  "getAvailability timeZone availability dateFrom dateTo =
     values_flat
       (spread2 (workingDates timeZone availability dateFrom dateTo)
                (dateOverrides timeZone availability))"

subsection \<open>The function on a store of objects\<close>

text \<open>
  JavaScript objects have identity and can be written to. To state what the function
  writes, this second embedding runs it on a store: a list of objects, an address being
  an index. Intervals and Day.js values are never written to after they are built and
  stay values; dates, rules, arrays and records are objects of the store.
\<close>

type_synonym addr = nat

datatype jsobj =
    DateObj Date
  | NumbersObj "int list"
  | RuleObj addr addr "addr option" "addr option"
  | RulesObj "addr list"
  | IntervalsObj "Interval list"
  | ArraysObj "addr list"
  | RecordObj "addr obj"

type_synonym store = "jsobj list"

definition store_alloc :: "jsobj \<Rightarrow> store \<Rightarrow> addr \<times> store" where
  "store_alloc v h = (length h, h @ [v])"

definition store_read :: "store \<Rightarrow> addr \<Rightarrow> jsobj option" where
  "store_read h a = (if a < length h then Some (h ! a) else None)"

definition store_write :: "addr \<Rightarrow> jsobj \<Rightarrow> store \<Rightarrow> store" where
  "store_write a v h = h[a := v]"

text \<open>Typed reads; a read of an object of another kind fails.\<close>

definition date_at :: "store \<Rightarrow> addr \<Rightarrow> Date option" where
  "date_at h a = (case store_read h a of Some (DateObj t) \<Rightarrow> Some t | _ \<Rightarrow> None)"

definition numbers_at :: "store \<Rightarrow> addr \<Rightarrow> int list option" where
  "numbers_at h a = (case store_read h a of Some (NumbersObj ns) \<Rightarrow> Some ns | _ \<Rightarrow> None)"

definition rules_at :: "store \<Rightarrow> addr \<Rightarrow> addr list option" where
  "rules_at h a = (case store_read h a of Some (RulesObj rs) \<Rightarrow> Some rs | _ \<Rightarrow> None)"

definition intervals_at :: "store \<Rightarrow> addr \<Rightarrow> Interval list option" where
  "intervals_at h a = (case store_read h a of Some (IntervalsObj xs) \<Rightarrow> Some xs | _ \<Rightarrow> None)"

definition arrays_at :: "store \<Rightarrow> addr \<Rightarrow> addr list option" where
  "arrays_at h a = (case store_read h a of Some (ArraysObj xs) \<Rightarrow> Some xs | _ \<Rightarrow> None)"

definition record_at :: "store \<Rightarrow> addr \<Rightarrow> addr obj option" where
  "record_at h a = (case store_read h a of Some (RecordObj kvs) \<Rightarrow> Some kvs | _ \<Rightarrow> None)"

text \<open>A field that may be \<open>null\<close> or \<open>undefined\<close>.\<close>

definition optional_at :: "(store \<Rightarrow> addr \<Rightarrow> 'a option) \<Rightarrow> store \<Rightarrow> addr option \<Rightarrow> 'a option option" where
  "optional_at f h ao = (case ao of None \<Rightarrow> Some None | Some a \<Rightarrow> map_option Some (f h a))"

text \<open>The fields of a rule object, read through its references.\<close>

definition rule_at :: "store \<Rightarrow> addr \<Rightarrow> AvailabilityRule option" where
  "rule_at h a =
     (case store_read h a of
        Some (RuleObj s e d ds) \<Rightarrow>
          do {
            st \<leftarrow> date_at h s;
            et \<leftarrow> date_at h e;
            dt \<leftarrow> optional_at date_at h d;
            dys \<leftarrow> optional_at numbers_at h ds;
            Some \<lparr>startTime = st, endTime = et, date = dt, days = dys\<rparr>
          }
      | _ \<Rightarrow> None)"

text \<open>\<open>array.filter(p)\<close>: the kept references go into a new array.\<close>

definition filter_h :: "(AvailabilityRule \<Rightarrow> bool) \<Rightarrow> addr \<Rightarrow> store \<Rightarrow> (addr \<times> store) option" where
  "filter_h p av h =
     do {
       rs \<leftarrow> rules_at h av;
       vs \<leftarrow> those (map (rule_at h) rs);
       Some (store_alloc (RulesObj (map fst (filter (\<lambda>(a, v). p v) (zip rs vs)))) h)
     }"

text \<open>\<open>dates[k] = dates[k] ?? []\<close>, for the record at \<open>acc\<close>.\<close>

definition ensure_key_h :: "string \<Rightarrow> addr \<Rightarrow> store \<Rightarrow> store option" where
  "ensure_key_h k acc h =
     do {
       kvs \<leftarrow> record_at h acc;
       (case map_of kvs k of
          Some a \<Rightarrow> Some (store_write acc (RecordObj (obj_set k a kvs)) h)
        | None \<Rightarrow>
            (case store_alloc (IntervalsObj []) h of
               (a, h1) \<Rightarrow> Some (store_write acc (RecordObj (obj_set k a kvs)) h1)))
     }"

text \<open>\<open>dates[k].push(i)\<close>: the array under the key is extended in place.\<close>

definition push_h :: "string \<Rightarrow> Interval \<Rightarrow> addr \<Rightarrow> store \<Rightarrow> store option" where
  "push_h k i acc h =
     do {
       kvs \<leftarrow> record_at h acc;
       a \<leftarrow> map_of kvs k;
       xs \<leftarrow> intervals_at h a;
       Some (store_write a (IntervalsObj (xs @ [i])) h)
     }"

text \<open>
  The body of the \<open>for\<close> loop. The fields of \<open>block\<close> are read where the source reads
  them: \<open>startTime\<close> and \<open>days\<close> first, \<open>endTime\<close> when the pushed object is built.
\<close>

definition working_body_h :: "timezone \<Rightarrow> addr \<Rightarrow> Dayjs \<Rightarrow> addr \<Rightarrow> store \<Rightarrow> store option" where
  "working_body_h timeZone b d acc h =
     do {
       block \<leftarrow> rule_at h b;
       let startDate = working_start timeZone block d;
       if days_includes (days block) (day startDate)
       then do {
         h1 \<leftarrow> ensure_key_h (format_YYYY_MM_DD startDate) acc h;
         block1 \<leftarrow> rule_at h1 b;
         push_h (format_YYYY_MM_DD startDate)
           \<lparr>start = startDate, end' = working_end timeZone block1 d\<rparr> acc h1
       }
       else Some h
     }"

text \<open>
  The \<open>for\<close> loop: its condition reads \<open>dateTo\<close> from the store on every round, so
  whether it ends depends on what the body writes.
\<close>

partial_function (option) for_each_day_h ::
  "(Dayjs \<Rightarrow> store \<Rightarrow> store option) \<Rightarrow> addr \<Rightarrow> Dayjs \<Rightarrow> store \<Rightarrow> store option" where
  "for_each_day_h body dateTo d h =
     do {
       t \<leftarrow> date_at h dateTo;
       if isBefore d (dayjs_utc t)
       then do { h1 \<leftarrow> body d h; for_each_day_h body dateTo (add_day 1 d) h1 }
       else Some h
     }"

declare for_each_day_h.simps [code]

text \<open>\<open>array.reduce(f, init)\<close> with a callback that works on the store.\<close>

fun reduce_h :: "(addr \<Rightarrow> store \<Rightarrow> store option) \<Rightarrow> addr list \<Rightarrow> store \<Rightarrow> store option" where
  "reduce_h f [] h = Some h"
| "reduce_h f (x # xs) h = do { h1 \<leftarrow> f x h; reduce_h f xs h1 }"

definition working_callback_h ::
  "timezone \<Rightarrow> addr \<Rightarrow> addr \<Rightarrow> addr \<Rightarrow> addr \<Rightarrow> store \<Rightarrow> store option" where
  "working_callback_h timeZone dateFrom dateTo acc b h =
     do {
       f \<leftarrow> date_at h dateFrom;
       for_each_day_h (\<lambda>d. working_body_h timeZone b d acc) dateTo (dayjs_utc (toISOdate f)) h
     }"

definition workingDates_h ::
  "timezone \<Rightarrow> addr \<Rightarrow> addr \<Rightarrow> addr \<Rightarrow> store \<Rightarrow> (addr \<times> store) option" where
  "workingDates_h timeZone availability dateFrom dateTo h =
     do {
       (fa, h1) \<leftarrow> filter_h (\<lambda>v. days v \<noteq> None) availability h;
       (acc, h2) \<leftarrow> Some (store_alloc (RecordObj []) h1);
       bs \<leftarrow> rules_at h2 fa;
       h3 \<leftarrow> reduce_h (working_callback_h timeZone dateFrom dateTo acc) bs h2;
       Some (acc, h3)
     }"

definition override_body_h :: "timezone \<Rightarrow> addr \<Rightarrow> addr \<Rightarrow> store \<Rightarrow> store option" where
  "override_body_h timeZone acc b h =
     do {
       override \<leftarrow> rule_at h b;
       (case date override of
          None \<Rightarrow> Some h
        | Some d \<Rightarrow>
            do {
              let start = override_start timeZone d (startTime override);
              h1 \<leftarrow> ensure_key_h (format_YYYY_MM_DD start) acc h;
              override1 \<leftarrow> rule_at h1 b;
              d1 \<leftarrow> date override1;
              push_h (format_YYYY_MM_DD start)
                \<lparr>start = start, end' = override_start timeZone d1 (endTime override1)\<rparr> acc h1
            })
     }"

definition dateOverrides_h :: "timezone \<Rightarrow> addr \<Rightarrow> store \<Rightarrow> (addr \<times> store) option" where
  "dateOverrides_h timeZone availability h =
     do {
       (fa, h1) \<leftarrow> filter_h (\<lambda>a. date a \<noteq> None) availability h;
       (acc, h2) \<leftarrow> Some (store_alloc (RecordObj []) h1);
       bs \<leftarrow> rules_at h2 fa;
       h3 \<leftarrow> reduce_h (override_body_h timeZone acc) bs h2;
       Some (acc, h3)
     }"

text \<open>
  The whole function: the spread builds a new record that shares the arrays of the two
  it copies, \<open>Object.values\<close> a new array of their references, \<open>flat\<close> a new array of
  their elements, which is returned.
\<close>

definition getAvailability_h ::
  "timezone \<Rightarrow> addr \<Rightarrow> addr \<Rightarrow> addr \<Rightarrow> store \<Rightarrow> (addr \<times> store) option" where
  "getAvailability_h timeZone availability dateFrom dateTo h =
     do {
       (wa, h1) \<leftarrow> workingDates_h timeZone availability dateFrom dateTo h;
       (oa, h2) \<leftarrow> dateOverrides_h timeZone availability h1;
       w \<leftarrow> record_at h2 wa;
       ov \<leftarrow> record_at h2 oa;
       (ma, h3) \<leftarrow> Some (store_alloc (RecordObj (spread2 w ov)) h2);
       m \<leftarrow> record_at h3 ma;
       (va, h4) \<leftarrow> Some (store_alloc (ArraysObj (map snd m)) h3);
       as \<leftarrow> arrays_at h4 va;
       xss \<leftarrow> those (map (intervals_at h4) as);
       Some (store_alloc (IntervalsObj (concat xss)) h4)
     }"

section \<open>Notions used in the statements\<close>

text \<open>The list stored under a key, empty when the key is absent.\<close>

definition lookup_list :: "'v list obj \<Rightarrow> string \<Rightarrow> 'v list" where
  "lookup_list m k = (case map_of m k of Some v \<Rightarrow> v | None \<Rightarrow> [])"

text \<open>The days the \<open>for\<close> loop walks from \<open>d\<close> on: the values its variable takes while the condition holds.\<close>

function day_walk :: "Dayjs \<Rightarrow> Dayjs \<Rightarrow> Dayjs list" where
  "day_walk dateTo d = (if isBefore d dateTo then d # day_walk dateTo (add_day 1 d) else [])"
  by pat_completeness auto
termination
  by (relation "measure (\<lambda>(dateTo, d). nat (valueOf dateTo - valueOf d))")
     (auto simp: isBefore_def valueOf_def add_day_def MS_A_DAY_def)

declare day_walk.simps [simp del]

text \<open>The days walked for a range, from the UTC midnight of \<open>dateFrom\<close>'s date on.\<close>

definition walked_days :: "Date \<Rightarrow> Date \<Rightarrow> Dayjs list" where
  "walked_days dateFrom dateTo = day_walk (dayjs_utc dateTo) (dayjs_utc (toISOdate dateFrom))"

text \<open>The number of UTC midnights from \<open>s\<close> on, a day apart, that lie before \<open>t\<close>.\<close>

definition day_count :: "Date \<Rightarrow> Date \<Rightarrow> nat" where
  "day_count s t = nat ((t - s + MS_A_DAY - 1) div MS_A_DAY)"

text \<open>The interval a recurring rule yields on a walked day.\<close>

definition working_interval :: "timezone \<Rightarrow> AvailabilityRule \<Rightarrow> Dayjs \<Rightarrow> Interval" where
  "working_interval timeZone block d =
     \<lparr>start = working_start timeZone block d, end' = working_end timeZone block d\<rparr>"

text \<open>The weekday filter of line 270.\<close>

definition passes :: "timezone \<Rightarrow> AvailabilityRule \<Rightarrow> Dayjs \<Rightarrow> bool" where
  "passes timeZone block d = days_includes (days block) (day (working_start timeZone block d))"

text \<open>The callback of the first \<open>reduce\<close>, as a fold over the walked days.\<close>

definition working_step ::
  "timezone \<Rightarrow> Date \<Rightarrow> Date \<Rightarrow> AvailabilityRule \<Rightarrow> Interval list obj \<Rightarrow> Interval list obj" where
  "working_step timeZone dateFrom dateTo block dates =
     fold (working_body timeZone block) (walked_days dateFrom dateTo) dates"

text \<open>The key an interval is filed under: the date of its start.\<close>

definition key_of :: "Interval \<Rightarrow> string" where
  "key_of i = format_YYYY_MM_DD (start i)"

text \<open>A record in which every interval lies under its own key.\<close>

definition keyed :: "Interval list obj \<Rightarrow> bool" where
  "keyed m = list_all (\<lambda>(k, v). list_all (\<lambda>i. key_of i = k) v) m"

text \<open>An interval whose start is an earlier instant than its end.\<close>

definition starts_before_end :: "Interval \<Rightarrow> bool" where
  "starts_before_end i = (valueOf (start i) < valueOf (end' i))"

text \<open>A rule whose start time of day is earlier than its end time of day.\<close>

definition rule_ordered :: "AvailabilityRule \<Rightarrow> bool" where
  "rule_ordered r = (minutes_of (startTime r) < minutes_of (endTime r))"

text \<open>
  Two rules that agree on everything the function reads: the UTC hour and minute of
  \<open>startTime\<close> and of \<open>endTime\<close>, \<open>date\<close> and \<open>days\<close>.
\<close>

definition same_time_of_day :: "AvailabilityRule \<Rightarrow> AvailabilityRule \<Rightarrow> bool" where
  "same_time_of_day r r' =
     (getUTCHours (startTime r) = getUTCHours (startTime r') \<and>
      getUTCMinutes (startTime r) = getUTCMinutes (startTime r') \<and>
      getUTCHours (endTime r) = getUTCHours (endTime r') \<and>
      getUTCMinutes (endTime r) = getUTCMinutes (endTime r') \<and>
      date r = date r' \<and> days r = days r')"

text \<open>A store that holds the cells of another, unchanged, under the same addresses.\<close>

definition extends :: "store \<Rightarrow> store \<Rightarrow> bool" where
  "extends h h' = (length h \<le> length h' \<and> take (length h) h' = h)"

text \<open>
  The record at \<open>acc\<close> holds, key by key, references to arrays whose contents are the
  lists of the record value \<open>m\<close>.
\<close>

definition holds :: "store \<Rightarrow> addr obj \<Rightarrow> Interval list obj \<Rightarrow> bool" where
  "holds h kvs m =
     list_all2 (\<lambda>ka kv. fst ka = fst kv \<and> intervals_at h (snd ka) = Some (snd kv)) kvs m"

text \<open>
  The state of a \<open>reduce\<close> over a record allocated after the store \<open>hb\<close>: the cells of
  \<open>hb\<close> are unchanged, and the record and its arrays lie outside \<open>hb\<close>.
\<close>

definition acc_rel :: "store \<Rightarrow> addr \<Rightarrow> store \<Rightarrow> addr obj \<Rightarrow> Interval list obj \<Rightarrow> bool" where
  "acc_rel hb acc h kvs m =
     (extends hb h \<and> length hb \<le> acc \<and> record_at h acc = Some kvs \<and>
      distinct (map snd kvs) \<and> list_all (\<lambda>ka. length hb \<le> snd ka \<and> snd ka \<noteq> acc) kvs \<and>
      holds h kvs m)"


text \<open>The rule objects behind a list of references, read from the store.\<close>

definition rules_read :: "store \<Rightarrow> addr list \<Rightarrow> AvailabilityRule list \<Rightarrow> bool" where
  "rules_read h rs rules = list_all2 (\<lambda>a r. rule_at h a = Some r) rs rules"

subsection \<open>Sample inputs\<close>

text \<open>A zone with one offset for all instants, such as UTC (offset 0).\<close>

definition fixed_zone :: "int \<Rightarrow> timezone" where
  "fixed_zone m = (\<lambda>t. m)"

text \<open>
  The offsets of \<open>America/New_York\<close> in 2024: UTC-4 from 2024-03-10T07:00Z to
  2024-11-03T06:00Z, UTC-5 before and after.
\<close>

definition new_york_2024 :: timezone where
  "new_york_2024 t = (if 1710054000000 \<le> t \<and> t < 1730613600000 then - 240 else - 300)"

text \<open>Mondays from 09:00 to 17:00.\<close>

definition monday_rule :: AvailabilityRule where
  "monday_rule = \<lparr>startTime = 32400000, endTime = 61200000, date = None, days = Some [1]\<rparr>"

text \<open>An override for 2024-01-01, stored as 2024-01-01T00:00:00Z, from 10:00 to 12:00.\<close>

definition new_year_override :: AvailabilityRule where
  "new_year_override =
     \<lparr>startTime = 36000000, endTime = 43200000, date = Some 1704067200000, days = Some []\<rparr>"

text \<open>Sundays from 09:00 to 17:00.\<close>

definition sunday_rule :: AvailabilityRule where
  "sunday_rule = \<lparr>startTime = 32400000, endTime = 61200000, date = None, days = Some [0]\<rparr>"


text \<open>A sample rule with the times of day reversed: Mondays from 17:00 to 09:00.\<close>

definition reversed_rule :: AvailabilityRule where
  "reversed_rule = \<lparr>startTime = 61200000, endTime = 32400000, date = None, days = Some [1]\<rparr>"

text \<open>
  A sample override whose \<open>date\<close> is off the minute: 2024-01-15T00:00:30.500Z, from
  10:00 to 12:00.
\<close>

definition ragged_override :: AvailabilityRule where
  "ragged_override =
     \<lparr>startTime = 36000000, endTime = 43200000, date = Some 1705276830500, days = Some []\<rparr>"


text \<open>
  The Monday rule with its times carried by other dates: \<open>startTime\<close> is
  2001-09-09T09:00:00Z and \<open>endTime\<close> is 1970-01-02T17:00:00Z.
\<close>

definition monday_rule_other_dates :: AvailabilityRule where
  "monday_rule_other_dates =
     \<lparr>startTime = 1000026000000, endTime = 147600000, date = None, days = Some [1]\<rparr>"

text \<open>An override for Monday 2024-01-15, stored as 2024-01-15T00:00:00Z, from 10:00 to 12:00.\<close>

definition jan15_override :: AvailabilityRule where
  "jan15_override =
     \<lparr>startTime = 36000000, endTime = 43200000, date = Some 1705276800000, days = Some []\<rparr>"

text \<open>A store with the rules \<open>monday_rule\<close> (at 3) and \<open>new_year_override\<close> (at 8), their array (at 9) and the dates 2024-01-01T00:00Z (at 10) and 2024-01-04T00:00Z (at 11).\<close>

definition sample_store :: store where
  "sample_store =
     [DateObj 32400000, DateObj 61200000, NumbersObj [1], RuleObj 0 1 None (Some 2),
      DateObj 36000000, DateObj 43200000, DateObj 1704067200000, NumbersObj [],
      RuleObj 4 5 (Some 6) (Some 7), RulesObj [3, 8],
      DateObj 1704067200000, DateObj 1704326400000]"

section \<open>Properties of the embedding\<close>

subsection \<open>Objects\<close>

lemma map_of_obj_set: "map_of (obj_set k v m) = (map_of m)(k \<mapsto> v)"
  by (induction m) (auto simp: fun_eq_iff)

lemma keys_obj_set: "fst ` set (obj_set k v m) = insert k (fst ` set m)"
  by (induction m) (force split: if_splits)+

lemma distinct_obj_set: "distinct (map fst m) \<Longrightarrow> distinct (map fst (obj_set k v m))"
proof (induction m)
  case Nil
  show ?case by simp
next
  case (Cons a m)
  obtain k' v' where a: "a = (k', v')" by (cases a)
  from Cons have "distinct (map fst (obj_set k v m))" by simp
  moreover have "k' \<noteq> k \<Longrightarrow> k' \<notin> fst ` set (obj_set k v m)"
    using Cons.prems a by (auto simp: keys_obj_set)
  ultimately show ?case using Cons.prems a by auto
qed

lemma obj_set_twice: "obj_set k v (obj_set k w m) = obj_set k v m"
  by (induction m) auto

lemma obj_set_fresh: "k \<notin> fst ` set m \<Longrightarrow> obj_set k v m = m @ [(k, v)]"
  by (induction m) auto

lemma set_obj_set_subset: "set (obj_set k v m) \<subseteq> insert (k, v) (set m)"
  by (induction m) (auto split: if_splits)

lemma push_under_eq: "push_under k i m = obj_set k (lookup_list m k @ [i]) m"
  by (simp add: push_under_def lookup_list_def map_of_obj_set obj_set_twice Let_def
           split: option.splits)

lemma values_flat_obj_set:
  "distinct (map fst m) \<Longrightarrow>
   set (values_flat (obj_set k (lookup_list m k @ [i]) m)) = insert i (set (values_flat m))"
proof (induction m)
  case Nil
  show ?case by (simp add: values_flat_def lookup_list_def)
next
  case (Cons a m)
  obtain k' v' where a: "a = (k', v')" by (cases a)
  show ?case
  proof (cases "k' = k")
    case True
    then show ?thesis using a by (auto simp: values_flat_def lookup_list_def)
  next
    case False
    then have "lookup_list (a # m) k = lookup_list m k"
      using a by (simp add: lookup_list_def)
    moreover have "set (values_flat (obj_set k (lookup_list m k @ [i]) m)) = insert i (set (values_flat m))"
      using Cons by simp
    ultimately show ?thesis using a False by (auto simp: values_flat_def)
  qed
qed

lemma set_values_flat_push_under:
  "distinct (map fst m) \<Longrightarrow> set (values_flat (push_under k i m)) = insert i (set (values_flat m))"
  by (simp add: push_under_eq values_flat_obj_set)

lemma distinct_push_under:
  "distinct (map fst m) \<Longrightarrow> distinct (map fst (push_under k i m))"
  by (simp add: push_under_eq distinct_obj_set)

subsection \<open>The recurring expansion\<close>

lemma for_each_day_fold:
  "for_each_day body dateTo d acc = fold body (day_walk dateTo d) acc"
proof (induction body dateTo d acc rule: for_each_day.induct)
  case (1 body dateTo d acc)
  show ?case
  proof (cases "isBefore d dateTo")
    case True
    then show ?thesis
      using "1" by (simp add: for_each_day.simps [of body dateTo d] day_walk.simps [of dateTo d])
  next
    case False
    then show ?thesis
      by (simp add: for_each_day.simps [of body dateTo d] day_walk.simps [of dateTo d])
  qed
qed

lemma working_body_eq:
  "working_body timeZone block d dates =
     (if passes timeZone block d
      then push_under (format_YYYY_MM_DD (working_start timeZone block d))
             (working_interval timeZone block d) dates
      else dates)"
  by (simp add: working_body_def passes_def working_interval_def Let_def)

lemma distinct_working_body:
  "distinct (map fst m) \<Longrightarrow> distinct (map fst (working_body timeZone block d m))"
  by (simp add: working_body_eq distinct_push_under)

lemma distinct_fold_working_body:
  "distinct (map fst m) \<Longrightarrow> distinct (map fst (fold (working_body timeZone block) ds m))"
  by (induction ds arbitrary: m) (simp_all add: distinct_working_body)

lemma set_fold_working_body:
  "distinct (map fst m) \<Longrightarrow>
   set (values_flat (fold (working_body timeZone block) ds m)) =
   set (values_flat m) \<union> working_interval timeZone block ` {d \<in> set ds. passes timeZone block d}"
proof (induction ds arbitrary: m)
  case Nil
  show ?case by simp
next
  case (Cons d ds)
  have dist: "distinct (map fst (working_body timeZone block d m))"
    using Cons.prems by (rule distinct_working_body)
  have step: "set (values_flat (working_body timeZone block d m)) =
      set (values_flat m) \<union> working_interval timeZone block ` {x \<in> {d}. passes timeZone block x}"
    using Cons.prems by (auto simp: working_body_eq set_values_flat_push_under)
  have "set (values_flat (fold (working_body timeZone block) (d # ds) m)) =
      set (values_flat (working_body timeZone block d m)) \<union>
      working_interval timeZone block ` {x \<in> set ds. passes timeZone block x}"
    using Cons.IH [OF dist] by simp
  also have "\<dots> = set (values_flat m) \<union>
      working_interval timeZone block ` {x \<in> set (d # ds). passes timeZone block x}"
    unfolding step by auto
  finally show ?case .
qed

lemma workingDates_fold:
  "workingDates timeZone availability dateFrom dateTo =
     fold (working_step timeZone dateFrom dateTo) (filter (\<lambda>v. days v \<noteq> None) availability) []"
proof -
  have "working_step timeZone dateFrom dateTo =
      (\<lambda>block dates. for_each_day (working_body timeZone block) (dayjs_utc dateTo)
         (dayjs_utc (toISOdate dateFrom)) dates)"
    by (simp add: fun_eq_iff working_step_def walked_days_def for_each_day_fold)
  then show ?thesis by (simp add: workingDates_def)
qed

lemma distinct_fold_working_step:
  "distinct (map fst m) \<Longrightarrow>
   distinct (map fst (fold (working_step timeZone dateFrom dateTo) bs m))"
  by (induction bs arbitrary: m) (simp_all add: working_step_def distinct_fold_working_body)

lemma set_fold_working_step:
  "distinct (map fst m) \<Longrightarrow>
   set (values_flat (fold (working_step timeZone dateFrom dateTo) bs m)) =
   set (values_flat m) \<union>
   (\<Union>b \<in> set bs. working_interval timeZone b `
      {d \<in> set (walked_days dateFrom dateTo). passes timeZone b d})"
proof (induction bs arbitrary: m)
  case Nil
  show ?case by simp
next
  case (Cons b bs)
  have dist: "distinct (map fst (working_step timeZone dateFrom dateTo b m))"
    using Cons.prems by (simp add: working_step_def distinct_fold_working_body)
  have step: "set (values_flat (working_step timeZone dateFrom dateTo b m)) =
      set (values_flat m) \<union> working_interval timeZone b `
        {d \<in> set (walked_days dateFrom dateTo). passes timeZone b d}"
    using Cons.prems by (simp add: working_step_def set_fold_working_body)
  show ?case
    using Cons.IH [OF dist] unfolding step by auto
qed

lemma distinct_workingDates:
  "distinct (map fst (workingDates timeZone availability dateFrom dateTo))"
  by (simp add: workingDates_fold distinct_fold_working_step)

lemma passes_days: "passes timeZone b d \<Longrightarrow> days b \<noteq> None"
  by (auto simp: passes_def days_includes_def split: option.splits)

lemma set_workingDates:
  "set (values_flat (workingDates timeZone availability dateFrom dateTo)) =
   (\<Union>b \<in> set availability. working_interval timeZone b `
      {d \<in> set (walked_days dateFrom dateTo). passes timeZone b d})"
  unfolding workingDates_fold
  by (subst set_fold_working_step) (auto simp: values_flat_def dest: passes_days)

subsection \<open>Intervals lie under the date of their start\<close>

lemma keyed_obj_set:
  "keyed m \<Longrightarrow> list_all (\<lambda>i. key_of i = k) v \<Longrightarrow> keyed (obj_set k v m)"
  by (induction m) (auto simp: keyed_def)

lemma keyed_lookup_list: "keyed m \<Longrightarrow> list_all (\<lambda>i. key_of i = k) (lookup_list m k)"
  by (induction m) (auto simp: keyed_def lookup_list_def)

lemma keyed_push_under: "keyed m \<Longrightarrow> key_of i = k \<Longrightarrow> keyed (push_under k i m)"
  by (simp add: push_under_eq keyed_obj_set keyed_lookup_list)

lemma filter_key_other:
  "list_all (\<lambda>i. key_of i = k') v \<Longrightarrow> k' \<noteq> k \<Longrightarrow> filter (\<lambda>i. key_of i = k) v = []"
  by (induction v) auto

lemma filter_key_same:
  "list_all (\<lambda>i. key_of i = k) v \<Longrightarrow> filter (\<lambda>i. key_of i = k) v = v"
  by (induction v) auto

lemma filter_key_absent:
  "keyed m \<Longrightarrow> k \<notin> fst ` set m \<Longrightarrow> filter (\<lambda>i. key_of i = k) (values_flat m) = []"
proof (induction m)
  case Nil
  show ?case by (simp add: values_flat_def)
next
  case (Cons a m)
  obtain k' v' where a: "a = (k', v')" by (cases a)
  have "filter (\<lambda>i. key_of i = k) v' = []"
    using Cons.prems a by (intro filter_key_other [of k']) (auto simp: keyed_def)
  moreover have "filter (\<lambda>i. key_of i = k) (values_flat m) = []"
    using Cons by (auto simp: keyed_def)
  ultimately show ?case using a by (simp add: values_flat_def)
qed

lemma filter_key_values_flat:
  "keyed m \<Longrightarrow> distinct (map fst m) \<Longrightarrow>
   filter (\<lambda>i. key_of i = k) (values_flat m) = lookup_list m k"
proof (induction m)
  case Nil
  show ?case by (simp add: values_flat_def lookup_list_def)
next
  case (Cons a m)
  obtain k' v' where a: "a = (k', v')" by (cases a)
  have km: "keyed m" and kv: "list_all (\<lambda>i. key_of i = k') v'"
    using Cons.prems a by (auto simp: keyed_def)
  show ?case
  proof (cases "k' = k")
    case True
    then have "k \<notin> fst ` set m" using Cons.prems a by auto
    then have "filter (\<lambda>i. key_of i = k) (values_flat m) = []"
      using km by (rule filter_key_absent [rotated])
    moreover have "filter (\<lambda>i. key_of i = k) v' = v'"
      using kv True by (simp add: filter_key_same)
    ultimately show ?thesis using a True by (simp add: values_flat_def lookup_list_def)
  next
    case False
    then have "filter (\<lambda>i. key_of i = k) v' = []"
      using kv by (intro filter_key_other [of k']) auto
    moreover have "filter (\<lambda>i. key_of i = k) (values_flat m) = lookup_list m k"
      using Cons km by simp
    ultimately show ?thesis using a False by (simp add: values_flat_def lookup_list_def)
  qed
qed

subsection \<open>The spread\<close>

lemma distinct_fold_obj_set:
  "distinct (map fst m) \<Longrightarrow> distinct (map fst (fold (\<lambda>(k, v). obj_set k v) xs m))"
  by (induction xs arbitrary: m) (auto simp: distinct_obj_set)

lemma keyed_fold_obj_set:
  "keyed m \<Longrightarrow> keyed xs \<Longrightarrow> keyed (fold (\<lambda>(k, v). obj_set k v) xs m)"
proof (induction xs arbitrary: m)
  case Nil
  then show ?case by simp
next
  case (Cons a xs)
  obtain k v where a: "a = (k, v)" by (cases a)
  have "keyed (obj_set k v m)"
    using Cons.prems a by (intro keyed_obj_set) (auto simp: keyed_def)
  moreover have "keyed xs" using Cons.prems by (simp add: keyed_def)
  ultimately show ?case using Cons.IH a by simp
qed

lemma map_of_fold_obj_set:
  "map_of (fold (\<lambda>(k, v). obj_set k v) xs m) = map_of m ++ map_of (rev xs)"
proof (induction xs arbitrary: m)
  case Nil
  show ?case by simp
next
  case (Cons a xs)
  obtain k v where a: "a = (k, v)" by (cases a)
  have "map_of (fold (\<lambda>(k, v). obj_set k v) (a # xs) m) = map_of (obj_set k v m) ++ map_of (rev xs)"
    using Cons.IH a by simp
  also have "\<dots> = map_of m ++ map_of (rev (a # xs))"
    using a by (simp add: map_of_obj_set map_add_def fun_eq_iff split: option.splits)
  finally show ?case .
qed

lemma map_of_rev_distinct: "distinct (map fst xs) \<Longrightarrow> map_of (rev xs) = map_of xs"
proof -
  assume d: "distinct (map fst xs)"
  then have "distinct (map fst (rev xs))" by (simp add: rev_map [symmetric])
  then show ?thesis using d by (simp add: map_of_inject_set)
qed



lemma distinct_spread2: "distinct (map fst (spread2 a b))"
  by (simp add: spread2_def distinct_fold_obj_set)

lemma keyed_spread2: "keyed a \<Longrightarrow> keyed b \<Longrightarrow> keyed (spread2 a b)"
  unfolding spread2_def by (rule keyed_fold_obj_set) (simp_all add: keyed_def)

lemma map_of_spread2:
  "distinct (map fst a) \<Longrightarrow> distinct (map fst b) \<Longrightarrow>
   map_of (spread2 a b) = map_of a ++ map_of b"
proof -
  assume da: "distinct (map fst a)" and db: "distinct (map fst b)"
  have "map_of (spread2 a b) = map_of (rev b @ rev a)"
    by (simp add: spread2_def map_of_fold_obj_set)
  also have "\<dots> = map_of (rev a) ++ map_of (rev b)"
    by (simp add: map_of_append)
  finally show ?thesis using da db by (simp add: map_of_rev_distinct)
qed

lemma set_spread2_subset: "set (spread2 a b) \<subseteq> set a \<union> set b"
proof -
  have "set (fold (\<lambda>(k, v). obj_set k v) xs m) \<subseteq> set m \<union> set xs" for xs m :: "'a obj"
  proof (induction xs arbitrary: m)
    case Nil
    show ?case by simp
  next
    case (Cons x xs)
    obtain k v where x: "x = (k, v)" by (cases x)
    have "set (fold (\<lambda>(k, v). obj_set k v) (x # xs) m) \<subseteq> set (obj_set k v m) \<union> set xs"
      using Cons.IH [of "obj_set k v m"] x by simp
    also have "\<dots> \<subseteq> set m \<union> set (x # xs)"
      using set_obj_set_subset [of k v m] x by auto
    finally show ?case .
  qed
  from this [of "a @ b" "[]"] show ?thesis by (simp add: spread2_def)
qed

subsection \<open>The override expansion\<close>

lemma override_body_eq:
  "date r = Some d \<Longrightarrow>
   override_body timeZone r m =
     push_under (key_of (override_interval timeZone d r)) (override_interval timeZone d r) m"
  by (simp add: override_body_def key_of_def Let_def)

lemma distinct_fold_override_body:
  "distinct (map fst m) \<Longrightarrow> distinct (map fst (fold (override_body timeZone) rs m))"
proof (induction rs arbitrary: m)
  case Nil
  then show ?case by simp
next
  case (Cons r rs)
  have "distinct (map fst (override_body timeZone r m))"
    using Cons.prems
    by (cases "date r") (simp_all add: override_body_eq distinct_push_under, simp add: override_body_def)
  then show ?case using Cons.IH by simp
qed

lemma keyed_fold_override_body:
  "keyed m \<Longrightarrow> keyed (fold (override_body timeZone) rs m)"
proof (induction rs arbitrary: m)
  case Nil
  then show ?case by simp
next
  case (Cons r rs)
  have "keyed (override_body timeZone r m)"
  proof (cases "date r")
    case None
    then show ?thesis using Cons.prems by (simp add: override_body_def)
  next
    case (Some d)
    then show ?thesis using Cons.prems by (simp add: override_body_eq keyed_push_under)
  qed
  then show ?case using Cons.IH by simp
qed

lemma set_fold_override_body:
  "distinct (map fst m) \<Longrightarrow>
   set (values_flat (fold (override_body timeZone) rs m)) =
   set (values_flat m) \<union> {override_interval timeZone d r | r d. r \<in> set rs \<and> date r = Some d}"
proof (induction rs arbitrary: m)
  case Nil
  then show ?case by simp
next
  case (Cons r rs)
  have dist: "distinct (map fst (override_body timeZone r m))"
    using distinct_fold_override_body [OF Cons.prems, of timeZone "[r]"] by simp
  have step: "set (values_flat (override_body timeZone r m)) =
      set (values_flat m) \<union> {override_interval timeZone d r | d. date r = Some d}"
  proof (cases "date r")
    case None
    then show ?thesis by (simp add: override_body_def)
  next
    case (Some d)
    then show ?thesis
      using Cons.prems by (simp add: override_body_eq set_values_flat_push_under)
  qed
  show ?case
    using Cons.IH [OF dist] unfolding step by auto
qed

lemma distinct_dateOverrides: "distinct (map fst (dateOverrides timeZone availability))"
  by (simp add: dateOverrides_def distinct_fold_override_body)

lemma keyed_dateOverrides: "keyed (dateOverrides timeZone availability)"
  unfolding dateOverrides_def by (rule keyed_fold_override_body) (simp add: keyed_def)

lemma set_dateOverrides:
  "set (values_flat (dateOverrides timeZone availability)) =
   {override_interval timeZone d r | r d. r \<in> set availability \<and> date r = Some d}"
  unfolding dateOverrides_def
  by (subst set_fold_override_body) (auto simp: values_flat_def)

subsection \<open>The merged record\<close>

lemma keyed_working_body: "keyed m \<Longrightarrow> keyed (working_body timeZone block d m)"
  by (simp add: working_body_eq keyed_push_under key_of_def working_interval_def)

lemma keyed_fold_working_body:
  "keyed m \<Longrightarrow> keyed (fold (working_body timeZone block) ds m)"
  by (induction ds arbitrary: m) (simp_all add: keyed_working_body)

lemma keyed_fold_working_step:
  "keyed m \<Longrightarrow> keyed (fold (working_step timeZone dateFrom dateTo) bs m)"
  by (induction bs arbitrary: m) (simp_all add: working_step_def keyed_fold_working_body)

lemma keyed_workingDates: "keyed (workingDates timeZone availability dateFrom dateTo)"
  unfolding workingDates_fold by (rule keyed_fold_working_step) (simp add: keyed_def)

lemma keyed_merge:
  "keyed (spread2 (workingDates timeZone availability dateFrom dateTo)
            (dateOverrides timeZone availability))"
  by (simp add: keyed_spread2 keyed_workingDates keyed_dateOverrides)

lemma filter_key_getAvailability:
  "filter (\<lambda>i. key_of i = k) (getAvailability timeZone availability dateFrom dateTo) =
   (case map_of (dateOverrides timeZone availability) k of
      Some os \<Rightarrow> os
    | None \<Rightarrow> lookup_list (workingDates timeZone availability dateFrom dateTo) k)"
  unfolding getAvailability_def
  by (subst filter_key_values_flat)
     (simp_all add: keyed_merge distinct_spread2 lookup_list_def map_of_spread2
        distinct_workingDates distinct_dateOverrides map_add_def split: option.splits)

subsection \<open>Override precedence\<close>

text \<open>
  Claim C1. For every date key that both the recurring expansion and the override
  expansion produce, the merged record holds under that key the override expansion's
  list, and the intervals of the flattened output that carry this date are exactly the
  override expansion's intervals for it, in order: the recurring list for the date is
  replaced as a whole, not concatenated.
\<close>

theorem override_precedence:
  assumes "map_of (workingDates timeZone availability dateFrom dateTo) k = Some rs"
    and "map_of (dateOverrides timeZone availability) k = Some os"
  shows "map_of (spread2 (workingDates timeZone availability dateFrom dateTo)
                   (dateOverrides timeZone availability)) k = Some os \<and>
         filter (\<lambda>i. format_YYYY_MM_DD (start i) = k)
           (getAvailability timeZone availability dateFrom dateTo) = os"
proof
  show "map_of (spread2 (workingDates timeZone availability dateFrom dateTo)
                   (dateOverrides timeZone availability)) k = Some os"
    using assms(2)
    by (simp add: map_of_spread2 distinct_workingDates distinct_dateOverrides)
  show "filter (\<lambda>i. format_YYYY_MM_DD (start i) = k)
           (getAvailability timeZone availability dateFrom dateTo) = os"
    using filter_key_getAvailability [of k timeZone availability dateFrom dateTo] assms(2)
    by (simp add: key_of_def)
qed

theorem override_precedence_witness:
  "filter (\<lambda>i. format_YYYY_MM_DD (start i) = ''2024-01-01'')
     (getAvailability (fixed_zone 0) [monday_rule, new_year_override] 1704067200000 1704326400000) =
   [\<lparr>start = \<lparr>wall = 1704103200000, utcOffset = 0\<rparr>,
     end' = \<lparr>wall = 1704110400000, utcOffset = 0\<rparr>\<rparr>]"
proof -
  have r: "map_of (workingDates (fixed_zone 0) [monday_rule, new_year_override]
              1704067200000 1704326400000) ''2024-01-01'' =
           Some [\<lparr>start = \<lparr>wall = 1704099600000, utcOffset = 0\<rparr>,
                  end' = \<lparr>wall = 1704128400000, utcOffset = 0\<rparr>\<rparr>]"
    by code_simp
  have o: "map_of (dateOverrides (fixed_zone 0) [monday_rule, new_year_override]) ''2024-01-01'' =
           Some [\<lparr>start = \<lparr>wall = 1704103200000, utcOffset = 0\<rparr>,
                  end' = \<lparr>wall = 1704110400000, utcOffset = 0\<rparr>\<rparr>]"
    by code_simp
  from override_precedence [OF r o] show ?thesis by simp
qed

subsection \<open>Arithmetic of the time of day\<close>

lemma getUTCHours_range: "0 \<le> getUTCHours t \<and> getUTCHours t < 24"
  by (simp add: getUTCHours_def)

lemma getUTCMinutes_range: "0 \<le> getUTCMinutes t \<and> getUTCMinutes t < 60"
  by (simp add: getUTCMinutes_def)

lemma minutes_of_range: "0 \<le> minutes_of t \<and> minutes_of t < 1440"
  using getUTCHours_range [of t] getUTCMinutes_range [of t] by (simp add: minutes_of_def)

lemma minutes_of_div: "minutes_of t div 60 = getUTCHours t"
  using getUTCMinutes_range [of t] by (simp add: minutes_of_def)

lemma minutes_of_mod: "minutes_of t mod 60 = getUTCMinutes t"
  using getUTCMinutes_range [of t] by (simp add: minutes_of_def)

lemma midnight_plus_div_day:
  assumes "D mod 86400000 = 0" and "0 \<le> n" and "n < 1440"
  shows "(D + n * 60000) div 86400000 = D div (86400000::int)"
proof -
  from assms(1) obtain q where D: "D = 86400000 * q" by (auto simp: mod_eq_0_iff_dvd)
  have "(n * 60000) div 86400000 = 0"
    using assms(2,3) by (intro div_pos_pos_trivial) auto
  moreover have "(86400000 * q + n * 60000) div 86400000 = q + (n * 60000) div 86400000"
    by simp
  ultimately show ?thesis using D by simp
qed

lemma midnight_plus_hour:
  assumes "D mod 86400000 = 0" and "0 \<le> n" and "n < 1440"
  shows "((D + n * 60000) div 3600000) mod 24 = n div (60::int)"
proof -
  from assms(1) obtain q where D: "D = 86400000 * q" by (auto simp: mod_eq_0_iff_dvd)
  have "D + n * 60000 = n * 60000 + (24 * q) * 3600000" using D by simp
  then have "(D + n * 60000) div 3600000 = 24 * q + (n * 60000) div 3600000"
    by (simp only: div_mult_self1)
  also have "(n * 60000) div 3600000 = n div 60"
  proof -
    have "(n * 60000) div (60 * 60000) = n div 60" by (rule div_mult_mult2) simp
    then show ?thesis by simp
  qed
  finally have "((D + n * 60000) div 3600000) mod 24 = (n div 60) mod 24" by simp
  moreover have "0 \<le> n div 60" "n div 60 < 24" using assms(2,3) by auto
  ultimately show ?thesis by simp
qed

lemma midnight_plus_minute:
  assumes "D mod 86400000 = 0"
  shows "((D + n * 60000) div 60000) mod 60 = n mod (60::int)"
proof -
  from assms(1) obtain q where D: "D = 86400000 * q" by (auto simp: mod_eq_0_iff_dvd)
  have "D + n * 60000 = (1440 * q + n) * 60000" using D by (simp add: algebra_simps)
  then have "(D + n * 60000) div 60000 = 1440 * q + n" by simp
  moreover have "(1440 * q + n) mod 60 = n mod 60"
  proof -
    have "1440 * q + n = n + (24 * q) * 60" by simp
    then show ?thesis by (simp only: mod_mult_self1)
  qed
  ultimately show ?thesis by (simp only:)
qed

subsection \<open>The walked days\<close>

lemma add_day_dayjs_utc: "add_day 1 (dayjs_utc s) = dayjs_utc (s + MS_A_DAY)"
  by (simp add: add_day_def dayjs_utc_def)

lemma isBefore_dayjs_utc: "isBefore (dayjs_utc s) (dayjs_utc t) = (s < t)"
  by (simp add: isBefore_def valueOf_def dayjs_utc_def)

lemma MS_A_DAY_pos: "0 < MS_A_DAY"
  by (simp add: MS_A_DAY_def)

lemma day_count_0: "\<not> s < t \<Longrightarrow> day_count s t = 0"
proof -
  assume "\<not> s < t"
  then have "t - s + MS_A_DAY - 1 \<le> MS_A_DAY - 1" by simp
  then have "(t - s + MS_A_DAY - 1) div MS_A_DAY \<le> (MS_A_DAY - 1) div MS_A_DAY"
    using MS_A_DAY_pos by (rule zdiv_mono1)
  moreover have "(MS_A_DAY - 1) div MS_A_DAY = 0"
    using MS_A_DAY_pos by (intro div_pos_pos_trivial) simp_all
  ultimately show ?thesis by (simp add: day_count_def)
qed

lemma day_count_Suc: "s < t \<Longrightarrow> day_count s t = Suc (day_count (s + MS_A_DAY) t)"
proof -
  assume lt: "s < t"
  define x where "x = t - s - 1"
  have x0: "0 \<le> x" using lt by (simp add: x_def)
  have "t - s + MS_A_DAY - 1 = x + 1 * MS_A_DAY" by (simp add: x_def)
  then have "(t - s + MS_A_DAY - 1) div MS_A_DAY = 1 + x div MS_A_DAY"
    using MS_A_DAY_pos by (simp only: div_mult_self1) 
  moreover have "0 \<le> x div MS_A_DAY"
    using x0 MS_A_DAY_pos by (simp add: pos_imp_zdiv_nonneg_iff)
  ultimately show ?thesis by (simp add: day_count_def x_def [symmetric] nat_add_distrib)
qed

lemma day_walk_utc:
  "day_walk (dayjs_utc t) (dayjs_utc s) =
   map (\<lambda>k. dayjs_utc (s + int k * MS_A_DAY)) [0..<day_count s t]"
proof (induction "day_count s t" arbitrary: s)
  case 0
  then have "\<not> s < t" using day_count_Suc [of s t] by auto
  then show ?case
    using 0 by (simp add: day_walk.simps [of "dayjs_utc t"] isBefore_dayjs_utc)
next
  case (Suc n)
  then have lt: "s < t" using day_count_0 [of s t] by auto
  then have n: "n = day_count (s + MS_A_DAY) t" using Suc.hyps(2) day_count_Suc [of s t] by simp
  have "day_walk (dayjs_utc t) (dayjs_utc s) =
        dayjs_utc s # day_walk (dayjs_utc t) (dayjs_utc (s + MS_A_DAY))"
    using lt by (simp add: day_walk.simps [of "dayjs_utc t" "dayjs_utc s"] isBefore_dayjs_utc
        add_day_dayjs_utc)
  also have "day_walk (dayjs_utc t) (dayjs_utc (s + MS_A_DAY)) =
        map (\<lambda>k. dayjs_utc (s + MS_A_DAY + int k * MS_A_DAY)) [0..<n]"
    using Suc.hyps(1) [OF n] n by simp
  also have "dayjs_utc s # map (\<lambda>k. dayjs_utc (s + MS_A_DAY + int k * MS_A_DAY)) [0..<n] =
        map (\<lambda>k. dayjs_utc (s + int k * MS_A_DAY)) [0..<Suc n]"
    by (simp only: map_upt_Suc) (simp add: algebra_simps)
  finally show ?case using Suc.hyps(2) by simp
qed

lemma walked_days_eq:
  "walked_days dateFrom dateTo =
   map (\<lambda>k. dayjs_utc (toISOdate dateFrom + int k * MS_A_DAY))
     [0..<day_count (toISOdate dateFrom) dateTo]"
  by (simp add: walked_days_def day_walk_utc)

lemma toISOdate_midnight: "toISOdate t mod MS_A_DAY = 0"
  by (simp add: toISOdate_def minus_mod_eq_mult_div)

lemma walked_days_midnight:
  assumes "d \<in> set (walked_days dateFrom dateTo)"
  shows "wall d mod MS_A_DAY = 0 \<and> utcOffset d = 0 \<and> toISOdate dateFrom \<le> wall d \<and> wall d < dateTo"
proof -
  from assms obtain k where k: "k < day_count (toISOdate dateFrom) dateTo"
    and d: "d = dayjs_utc (toISOdate dateFrom + int k * MS_A_DAY)"
    by (auto simp: walked_days_eq)
  have "(toISOdate dateFrom + int k * MS_A_DAY) mod MS_A_DAY = 0"
    using toISOdate_midnight [of dateFrom] by simp
  moreover have "toISOdate dateFrom + int k * MS_A_DAY < dateTo"
  proof -
    have "int k + 1 \<le> (dateTo - toISOdate dateFrom + MS_A_DAY - 1) div MS_A_DAY"
      using k by (simp add: day_count_def)
    then have "(int k + 1) * MS_A_DAY \<le>
        ((dateTo - toISOdate dateFrom + MS_A_DAY - 1) div MS_A_DAY) * MS_A_DAY"
      using MS_A_DAY_pos by (intro mult_right_mono) simp_all
    also have "\<dots> \<le> dateTo - toISOdate dateFrom + MS_A_DAY - 1"
      using MS_A_DAY_pos div_mult_mod_eq [of "dateTo - toISOdate dateFrom + MS_A_DAY - 1" MS_A_DAY]
        pos_mod_sign [of MS_A_DAY "dateTo - toISOdate dateFrom + MS_A_DAY - 1"]
      by linarith
    finally show ?thesis by (simp add: algebra_simps)
  qed
  moreover have "0 \<le> int k * MS_A_DAY" using MS_A_DAY_pos by simp
  ultimately show ?thesis using d by (simp add: dayjs_utc_def)
qed

subsection \<open>Start and end of a recurring interval\<close>

lemma wall_working_start:
  "wall (working_start timeZone block d) = wall d + minutes_of (startTime block) * 60000"
  by (simp add: working_start_def add_minutes_def tz_keepLocalTime_def MS_A_MINUTE_def)

lemma wall_working_end:
  "wall (working_end timeZone block d) = wall d + minutes_of (endTime block) * 60000"
  by (simp add: working_end_def add_minutes_def tz_keepLocalTime_def MS_A_MINUTE_def)

lemma utcOffset_working_start:
  "utcOffset (working_start timeZone block d) = timeZone (valueOf d)"
  by (simp add: working_start_def add_minutes_def tz_keepLocalTime_def)

lemma utcOffset_working_end:
  "utcOffset (working_end timeZone block d) = timeZone (valueOf d)"
  by (simp add: working_end_def add_minutes_def tz_keepLocalTime_def)

lemma hour_working_start:
  assumes "wall d mod MS_A_DAY = 0"
  shows "hour (working_start timeZone block d) = getUTCHours (startTime block)"
  using assms minutes_of_range [of "startTime block"]
  by (simp add: hour_def wall_working_start MS_A_HOUR_def MS_A_DAY_def midnight_plus_hour
      minutes_of_div)

lemma minute_working_start:
  assumes "wall d mod MS_A_DAY = 0"
  shows "minute (working_start timeZone block d) = getUTCMinutes (startTime block)"
proof -
  have "wall d mod 86400000 = 0" using assms by (simp add: MS_A_DAY_def)
  then have "((wall d + minutes_of (startTime block) * 60000) div 60000) mod 60 =
      minutes_of (startTime block) mod 60"
    by (rule midnight_plus_minute)
  then show ?thesis
    by (simp only: minute_def wall_working_start MS_A_MINUTE_def minutes_of_mod)
qed

lemma day_number_working_start:
  assumes "wall d mod MS_A_DAY = 0"
  shows "wall (working_start timeZone block d) div MS_A_DAY = wall d div MS_A_DAY"
  using assms minutes_of_range [of "startTime block"]
  by (simp add: wall_working_start MS_A_DAY_def midnight_plus_div_day)

lemma format_working_start:
  assumes "wall d mod MS_A_DAY = 0"
  shows "format_YYYY_MM_DD (working_start timeZone block d) = format_YYYY_MM_DD d"
  by (simp add: format_YYYY_MM_DD_def day_number_working_start [OF assms])

lemma day_working_start:
  assumes "wall d mod MS_A_DAY = 0"
  shows "day (working_start timeZone block d) = day d"
  by (simp add: day_def day_number_working_start [OF assms])

subsection \<open>Wall-clock anchoring of recurring rules\<close>

lemma dayjs_tz_working_start:
  assumes "timeZone (valueOf (working_start timeZone block d)) = timeZone (valueOf d)"
  shows "dayjs_tz (valueOf (working_start timeZone block d)) timeZone =
         working_start timeZone block d"
proof -
  define s where "s = working_start timeZone block d"
  have o: "utcOffset s = timeZone (valueOf d)" by (simp add: s_def utcOffset_working_start)
  have "wall (dayjs_tz (valueOf s) timeZone) = wall s"
    using assms o by (simp add: dayjs_tz_def valueOf_def s_def [symmetric])
  moreover have "utcOffset (dayjs_tz (valueOf s) timeZone) = utcOffset s"
    using assms o by (simp add: dayjs_tz_def s_def [symmetric])
  ultimately show ?thesis by (simp add: s_def)
qed

text \<open>
  Claim C4, as stated: the start of every produced interval has, as local clock time in
  the target zone, the hour and minute of the rule's \<open>startTime\<close>, whatever the offset
  of the date. It fails on a day on which the zone changes its offset after the day's UTC
  midnight and before the start. On Sunday 2024-03-10 New York leaves UTC-5 at 07:00Z:
  the start of a 09:00 rule is built nine hours after the midnight anchored at UTC-5,
  the instant 14:00Z, and the clock in New York then reads 10:00.
\<close>

theorem wall_clock_anchoring_counterexample:
  "working_interval new_york_2024 sunday_rule (dayjs_utc 1710028800000) \<in>
     set (getAvailability new_york_2024 [sunday_rule] 1710028800000 1710115200000) \<and>
   getUTCHours (startTime sunday_rule) = 9 \<and>
   hour (dayjs_tz (valueOf (start (working_interval new_york_2024 sunday_rule
     (dayjs_utc 1710028800000)))) new_york_2024) = 10"
  by code_simp

text \<open>
  Claim C4, amended. For every recurring rule and every walked day that passes the
  weekday filter, the recurring expansion produces the rule's interval for that day. The
  Day.js value of its start reads the hour and minute of the rule's \<open>startTime\<close> on
  the civil date of the walked day, against the offset the zone has at the walked day's
  UTC midnight, whatever that offset is. Whenever the zone has the same offset at the
  start instant, the local clock time in the target zone at that instant is the hour and
  minute of the rule's \<open>startTime\<close>.
\<close>

theorem wall_clock_anchoring:
  assumes "block \<in> set availability"
    and "d \<in> set (walked_days dateFrom dateTo)"
    and "days_includes (days block) (day (working_start timeZone block d))"
  shows "working_interval timeZone block d \<in>
           set (values_flat (workingDates timeZone availability dateFrom dateTo)) \<and>
         hour (start (working_interval timeZone block d)) = getUTCHours (startTime block) \<and>
         minute (start (working_interval timeZone block d)) = getUTCMinutes (startTime block) \<and>
         format_YYYY_MM_DD (start (working_interval timeZone block d)) = format_YYYY_MM_DD d \<and>
         utcOffset (start (working_interval timeZone block d)) = timeZone (wall d) \<and>
         (timeZone (valueOf (start (working_interval timeZone block d))) = timeZone (wall d) \<longrightarrow>
            hour (dayjs_tz (valueOf (start (working_interval timeZone block d))) timeZone) =
              getUTCHours (startTime block) \<and>
            minute (dayjs_tz (valueOf (start (working_interval timeZone block d))) timeZone) =
              getUTCMinutes (startTime block))"
proof -
  have mid: "wall d mod MS_A_DAY = 0"
    using walked_days_midnight [OF assms(2)] by simp
  have mem: "working_interval timeZone block d \<in>
      set (values_flat (workingDates timeZone availability dateFrom dateTo))"
    unfolding set_workingDates using assms by (auto simp: passes_def)
  have v: "valueOf d = wall d"
    using walked_days_midnight [OF assms(2)] by (simp add: valueOf_def)
  have s: "start (working_interval timeZone block d) = working_start timeZone block d"
    by (simp add: working_interval_def)
  have h: "hour (working_start timeZone block d) = getUTCHours (startTime block)"
    using mid by (rule hour_working_start)
  have m: "minute (working_start timeZone block d) = getUTCMinutes (startTime block)"
    using mid by (rule minute_working_start)
  have f: "format_YYYY_MM_DD (working_start timeZone block d) = format_YYYY_MM_DD d"
    using mid by (rule format_working_start)
  have o: "utcOffset (working_start timeZone block d) = timeZone (wall d)"
    by (simp add: utcOffset_working_start v)
  have z: "dayjs_tz (valueOf (working_start timeZone block d)) timeZone =
      working_start timeZone block d"
    if "timeZone (valueOf (working_start timeZone block d)) = timeZone (wall d)"
    using that dayjs_tz_working_start [of timeZone block d] by (simp add: v)
  show ?thesis
    unfolding s using mem h m f o z by (simp add: s)
qed

theorem wall_clock_anchoring_witness:
  "working_interval new_york_2024 monday_rule (dayjs_utc 1719792000000) \<in>
     set (values_flat (workingDates new_york_2024 [monday_rule] 1719792000000 1719878400000)) \<and>
   hour (start (working_interval new_york_2024 monday_rule (dayjs_utc 1719792000000))) = 9 \<and>
   minute (start (working_interval new_york_2024 monday_rule (dayjs_utc 1719792000000))) = 0 \<and>
   format_YYYY_MM_DD (start (working_interval new_york_2024 monday_rule (dayjs_utc 1719792000000))) =
     ''2024-07-01'' \<and>
   utcOffset (start (working_interval new_york_2024 monday_rule (dayjs_utc 1719792000000))) = - 240 \<and>
   new_york_2024 (valueOf (start (working_interval new_york_2024 monday_rule
     (dayjs_utc 1719792000000)))) = - 240 \<and>
   hour (dayjs_tz (valueOf (start (working_interval new_york_2024 monday_rule
     (dayjs_utc 1719792000000)))) new_york_2024) = 9 \<and>
   minute (dayjs_tz (valueOf (start (working_interval new_york_2024 monday_rule
     (dayjs_utc 1719792000000)))) new_york_2024) = 0"
proof -
  have a: "monday_rule \<in> set [monday_rule]" by simp
  have b: "dayjs_utc 1719792000000 \<in> set (walked_days 1719792000000 1719878400000)"
    by code_simp
  have c: "days_includes (days monday_rule)
             (day (working_start new_york_2024 monday_rule (dayjs_utc 1719792000000)))"
    by code_simp
  have h: "getUTCHours (startTime monday_rule) = 9" by code_simp
  have m: "getUTCMinutes (startTime monday_rule) = 0" by code_simp
  have f: "format_YYYY_MM_DD (dayjs_utc 1719792000000) = ''2024-07-01''" by code_simp
  have z: "new_york_2024 (wall (dayjs_utc 1719792000000)) = - 240" by code_simp
  have y: "new_york_2024 (valueOf (start (working_interval new_york_2024 monday_rule
     (dayjs_utc 1719792000000)))) = - 240" by code_simp
  from wall_clock_anchoring [OF a b c] y show ?thesis by (simp only: h m f z)
qed

subsection \<open>The day walk\<close>



lemma walked_days_bounds:
  "list_all (\<lambda>d. toISOdate dateFrom \<le> wall d \<and> wall d < dateTo) (walked_days dateFrom dateTo)"
  using walked_days_midnight [of _ dateFrom dateTo] by (auto simp: list_all_iff)







subsection \<open>Arithmetic of the setters\<close>

lemma minute_set_hour: "minute (set_hour h x) = minute x"
proof -
  have "wall x - hour x * 3600000 + h * 3600000 = wall x + (60 * (h - hour x)) * 60000"
    by (simp add: algebra_simps)
  then have "(wall x - hour x * 3600000 + h * 3600000) div 60000 =
      60 * (h - hour x) + wall x div 60000"
    by (simp only: div_mult_self1)
  moreover have "(60 * (h - hour x) + wall x div 60000) mod 60 = (wall x div 60000) mod 60"
  proof -
    have "60 * (h - hour x) + wall x div 60000 = wall x div 60000 + (h - hour x) * 60" by simp
    then show ?thesis by (simp only: mod_mult_self1)
  qed
  ultimately show ?thesis
    by (simp add: minute_def set_hour_def MS_A_HOUR_def MS_A_MINUTE_def)
qed

lemma wall_override_start:
  "wall (override_start timeZone d t) =
     wall (dayjs_tz d timeZone) - hour (dayjs_tz d timeZone) * MS_A_HOUR
       - minute (dayjs_tz d timeZone) * MS_A_MINUTE + minutes_of t * MS_A_MINUTE"
proof -
  have "minute (set_hour (getUTCHours t) (dayjs_tz d timeZone)) = minute (dayjs_tz d timeZone)"
    by (rule minute_set_hour)
  then show ?thesis
    by (simp add: override_start_def set_minute_def set_hour_def minutes_of_def
        MS_A_HOUR_def MS_A_MINUTE_def algebra_simps)
qed

lemma utcOffset_override_start: "utcOffset (override_start timeZone d t) = timeZone d"
  by (simp add: override_start_def set_minute_def set_hour_def dayjs_tz_def)

lemma valueOf_override_less:
  "valueOf (override_start timeZone d t1) < valueOf (override_start timeZone d t2) \<longleftrightarrow>
   minutes_of t1 < minutes_of t2"
  by (simp add: valueOf_def wall_override_start utcOffset_override_start MS_A_MINUTE_def)

lemma valueOf_working_less:
  "valueOf (working_start timeZone block d) < valueOf (working_end timeZone block d) \<longleftrightarrow>
   minutes_of (startTime block) < minutes_of (endTime block)"
  by (simp add: valueOf_def wall_working_start wall_working_end utcOffset_working_start
      utcOffset_working_end)

subsection \<open>Order of start and end\<close>

lemma set_values_flat_spread2:
  "set (values_flat (spread2 a b)) \<subseteq> set (values_flat a) \<union> set (values_flat b)"
  using set_spread2_subset [of a b] by (fastforce simp: values_flat_def)

lemma set_getAvailability_subset:
  "set (getAvailability timeZone availability dateFrom dateTo) \<subseteq>
   set (values_flat (workingDates timeZone availability dateFrom dateTo)) \<union>
   set (values_flat (dateOverrides timeZone availability))"
  unfolding getAvailability_def by (rule set_values_flat_spread2)

lemma starts_before_end_working:
  "starts_before_end (working_interval timeZone block d) = rule_ordered block"
  by (simp add: starts_before_end_def working_interval_def rule_ordered_def valueOf_working_less)

lemma starts_before_end_override:
  "starts_before_end (override_interval timeZone d r) = rule_ordered r"
  by (simp add: starts_before_end_def override_interval_def rule_ordered_def valueOf_override_less)

text \<open>
  Claim C5, as stated: every interval of the returned array has its start before its
  end. It fails for a rule whose time of day of \<open>startTime\<close> is not before that of
  \<open>endTime\<close>: the function checks nothing and hands the reversed interval on.
\<close>

theorem start_before_end_counterexample:
  "\<not> list_all starts_before_end
        (getAvailability (fixed_zone 0) [reversed_rule] 1704067200000 1704326400000)"
  by code_simp

text \<open>
  Claim C5, amended. When every rule has the hour and minute of its \<open>startTime\<close>
  before the hour and minute of its \<open>endTime\<close>, every interval of the returned array
  has its start before its end, as instants.
\<close>

theorem start_before_end:
  assumes "list_all rule_ordered availability"
  shows "list_all starts_before_end (getAvailability timeZone availability dateFrom dateTo)"
proof -
  have "starts_before_end i"
    if "i \<in> set (getAvailability timeZone availability dateFrom dateTo)" for i
  proof -
    from that set_getAvailability_subset [of timeZone availability dateFrom dateTo]
    consider "i \<in> set (values_flat (workingDates timeZone availability dateFrom dateTo))"
      | "i \<in> set (values_flat (dateOverrides timeZone availability))"
      by blast
    then show ?thesis
    proof cases
      case 1
      then obtain b d where "b \<in> set availability" and "i = working_interval timeZone b d"
        unfolding set_workingDates by blast
      then show ?thesis
        using assms by (simp add: starts_before_end_working list_all_iff)
    next
      case 2
      then obtain r d where "r \<in> set availability" and "i = override_interval timeZone d r"
        unfolding set_dateOverrides by blast
      then show ?thesis
        using assms by (simp add: starts_before_end_override list_all_iff)
    qed
  qed
  then show ?thesis by (simp add: list_all_iff)
qed

theorem start_before_end_witness:
  "list_all rule_ordered [monday_rule, new_year_override] \<and>
   list_all starts_before_end
     (getAvailability new_york_2024 [monday_rule, new_year_override] 1704067200000 1704326400000)"
proof -
  have h: "list_all rule_ordered [monday_rule, new_year_override]" by code_simp
  from start_before_end [OF h] h show ?thesis by simp
qed

subsection \<open>Seconds and milliseconds of an override's date\<close>

lemma wall_override_start_shift:
  "\<exists>K. wall (override_start timeZone d t) = d + K * 60000"
proof -
  define x where "x = dayjs_tz d timeZone"
  have "wall (override_start timeZone d t) =
      d + (timeZone d - 60 * hour x - minute x + minutes_of t) * 60000"
    by (simp add: wall_override_start x_def [symmetric] MS_A_HOUR_def MS_A_MINUTE_def)
       (simp add: x_def dayjs_tz_def MS_A_MINUTE_def algebra_simps)
  then show ?thesis by blast
qed

lemma valueOf_override_start_shift:
  "\<exists>K. valueOf (override_start timeZone d t) = d + K * 60000"
proof -
  obtain K where "wall (override_start timeZone d t) = d + K * 60000"
    using wall_override_start_shift by blast
  then have "valueOf (override_start timeZone d t) = d + (K - timeZone d) * 60000"
    by (simp add: valueOf_def utcOffset_override_start MS_A_MINUTE_def algebra_simps)
  then show ?thesis by blast
qed

lemma shift_mod_minute: "(d + K * 60000) mod 60000 = d mod (60000::int)"
  by simp

lemma shift_mod_1000: "(d + K * 60000) mod 1000 = d mod (1000::int)"
proof -
  have "d + K * 60000 = d + (K * 60) * 1000" by simp
  then show ?thesis by (simp only: mod_mult_self1)
qed

lemma shift_seconds: "((d + K * 60000) div 1000) mod 60 = (d div 1000) mod (60::int)"
proof -
  have "d + K * 60000 = d + (K * 60) * 1000" by simp
  then have "(d + K * 60000) div 1000 = K * 60 + d div 1000"
    by (simp only: div_mult_self1)
  then show ?thesis by (simp add: add.commute)
qed

lemma override_start_remnants:
  "second (override_start timeZone d t) = getUTCSeconds d \<and>
   millisecond (override_start timeZone d t) = getUTCMilliseconds d \<and>
   valueOf (override_start timeZone d t) mod MS_A_MINUTE = d mod MS_A_MINUTE"
proof -
  obtain K where K: "wall (override_start timeZone d t) = d + K * 60000"
    using wall_override_start_shift by blast
  obtain L where L: "valueOf (override_start timeZone d t) = d + L * 60000"
    using valueOf_override_start_shift by blast
  show ?thesis
    by (simp only: second_def millisecond_def getUTCSeconds_def getUTCMilliseconds_def K L
        MS_A_MINUTE_def shift_mod_minute shift_mod_1000 shift_seconds)
qed

text \<open>
  Claim C10. The override expansion overwrites only the hour and the minute of the
  override's \<open>date\<close> as converted into the zone, so the start and the end of the
  produced interval carry the seconds and milliseconds of \<open>date\<close>, and they fall on a
  whole minute exactly when \<open>date\<close> does.
\<close>

theorem override_keeps_seconds:
  assumes "r \<in> set availability" and "date r = Some d"
  shows "override_interval timeZone d r \<in> set (values_flat (dateOverrides timeZone availability)) \<and>
         second (start (override_interval timeZone d r)) = getUTCSeconds d \<and>
         millisecond (start (override_interval timeZone d r)) = getUTCMilliseconds d \<and>
         second (end' (override_interval timeZone d r)) = getUTCSeconds d \<and>
         millisecond (end' (override_interval timeZone d r)) = getUTCMilliseconds d \<and>
         (valueOf (start (override_interval timeZone d r)) mod MS_A_MINUTE = 0 \<longleftrightarrow>
            d mod MS_A_MINUTE = 0) \<and>
         (valueOf (end' (override_interval timeZone d r)) mod MS_A_MINUTE = 0 \<longleftrightarrow>
            d mod MS_A_MINUTE = 0)"
proof -
  have "override_interval timeZone d r \<in> set (values_flat (dateOverrides timeZone availability))"
    unfolding set_dateOverrides using assms by blast
  then show ?thesis
    using override_start_remnants [of timeZone d "startTime r"]
      override_start_remnants [of timeZone d "endTime r"]
    by (simp add: override_interval_def)
qed

theorem override_keeps_seconds_witness:
  "second (start (override_interval new_york_2024 1705276830500 ragged_override)) = 30 \<and>
   millisecond (start (override_interval new_york_2024 1705276830500 ragged_override)) = 500 \<and>
   valueOf (start (override_interval new_york_2024 1705276830500 ragged_override)) mod MS_A_MINUTE \<noteq> 0 \<and>
   override_interval new_york_2024 1705276830500 ragged_override \<in>
     set (getAvailability new_york_2024 [ragged_override] 1705276800000 1705363200000)"
proof -
  have a: "ragged_override \<in> set [ragged_override]" by simp
  have b: "date ragged_override = Some 1705276830500" by (simp add: ragged_override_def)
  have s: "getUTCSeconds 1705276830500 = 30" by code_simp
  have m: "getUTCMilliseconds 1705276830500 = 500" by code_simp
  have n: "(1705276830500::int) mod MS_A_MINUTE \<noteq> 0" by code_simp
  have g: "override_interval new_york_2024 1705276830500 ragged_override \<in>
     set (getAvailability new_york_2024 [ragged_override] 1705276800000 1705363200000)"
    by code_simp
  from override_keeps_seconds [OF a b, of new_york_2024] s m n g show ?thesis by simp
qed

subsection \<open>An empty range\<close>







subsection \<open>Which expansion a rule takes part in\<close>







subsection \<open>The date components of the stored times\<close>

lemma minutes_of_same:
  assumes "same_time_of_day r r'"
  shows "minutes_of (startTime r) = minutes_of (startTime r')"
    and "minutes_of (endTime r) = minutes_of (endTime r')"
  using assms by (simp_all add: minutes_of_def same_time_of_day_def)

lemma working_body_same:
  assumes "same_time_of_day r r'"
  shows "working_body timeZone r = working_body timeZone r'"
proof -
  have "working_start timeZone r = working_start timeZone r'"
    by (simp add: fun_eq_iff working_start_def minutes_of_same [OF assms])
  moreover have "working_end timeZone r = working_end timeZone r'"
    by (simp add: fun_eq_iff working_end_def minutes_of_same [OF assms])
  moreover have "days r = days r'"
    using assms by (simp add: same_time_of_day_def)
  ultimately show ?thesis by (simp add: fun_eq_iff working_body_def Let_def)
qed

lemma working_step_same:
  assumes "same_time_of_day r r'"
  shows "working_step timeZone dateFrom dateTo r = working_step timeZone dateFrom dateTo r'"
  by (simp add: fun_eq_iff working_step_def working_body_same [OF assms])

lemma override_body_same:
  assumes "same_time_of_day r r'"
  shows "override_body timeZone r = override_body timeZone r'"
proof -
  have "override_interval timeZone d r = override_interval timeZone d r'" for d
    using assms by (simp add: override_interval_def override_start_def same_time_of_day_def)
  moreover have "date r = date r'"
    using assms by (simp add: same_time_of_day_def)
  ultimately show ?thesis
    by (simp add: fun_eq_iff override_body_def Let_def split: option.splits)
qed

lemma workingDates_same:
  assumes "list_all2 same_time_of_day av av'"
  shows "workingDates timeZone av dateFrom dateTo = workingDates timeZone av' dateFrom dateTo"
proof -
  have "fold (working_step timeZone dateFrom dateTo) (filter (\<lambda>v. days v \<noteq> None) av) m =
        fold (working_step timeZone dateFrom dateTo) (filter (\<lambda>v. days v \<noteq> None) av') m" for m
    using assms
  proof (induction av av' arbitrary: m rule: list_all2_induct)
    case Nil
    show ?case by simp
  next
    case (Cons r av r' av')
    have "days r = days r'" using Cons.hyps(1) by (simp add: same_time_of_day_def)
    then show ?case
      using Cons.IH working_step_same [OF Cons.hyps(1), of timeZone dateFrom dateTo] by simp
  qed
  then show ?thesis by (simp add: workingDates_fold)
qed

lemma dateOverrides_same:
  assumes "list_all2 same_time_of_day av av'"
  shows "dateOverrides timeZone av = dateOverrides timeZone av'"
proof -
  have "fold (override_body timeZone) (filter (\<lambda>a. date a \<noteq> None) av) m =
        fold (override_body timeZone) (filter (\<lambda>a. date a \<noteq> None) av') m" for m
    using assms
  proof (induction av av' arbitrary: m rule: list_all2_induct)
    case Nil
    show ?case by simp
  next
    case (Cons r av r' av')
    have "date r = date r'" using Cons.hyps(1) by (simp add: same_time_of_day_def)
    then show ?case
      using Cons.IH override_body_same [OF Cons.hyps(1), of timeZone] by simp
  qed
  then show ?thesis by (simp add: dateOverrides_def)
qed

text \<open>
  Claim C8. Two calls whose availability lists agree rule by rule on \<open>date\<close>, on
  \<open>days\<close> and on the UTC hour and minute of \<open>startTime\<close> and \<open>endTime\<close>, with the
  same zone and range, return equal outputs: whatever else the stored times carry, their
  calendar date in particular, is ignored.
\<close>

theorem stored_dates_ignored:
  assumes "list_all2 same_time_of_day availability availability'"
  shows "getAvailability timeZone availability dateFrom dateTo =
         getAvailability timeZone availability' dateFrom dateTo"
  by (simp add: getAvailability_def workingDates_same [OF assms] dateOverrides_same [OF assms])

theorem stored_dates_ignored_witness:
  "startTime monday_rule \<noteq> startTime monday_rule_other_dates \<and>
   endTime monday_rule \<noteq> endTime monday_rule_other_dates \<and>
   list_all2 same_time_of_day [monday_rule, new_year_override]
     [monday_rule_other_dates, new_year_override] \<and>
   getAvailability new_york_2024 [monday_rule, new_year_override] 1704067200000 1704326400000 =
   getAvailability new_york_2024 [monday_rule_other_dates, new_year_override]
     1704067200000 1704326400000"
proof -
  have h: "list_all2 same_time_of_day [monday_rule, new_year_override]
     [monday_rule_other_dates, new_year_override]"
    by code_simp
  have s: "startTime monday_rule \<noteq> startTime monday_rule_other_dates"
    by (simp add: monday_rule_def monday_rule_other_dates_def)
  have e: "endTime monday_rule \<noteq> endTime monday_rule_other_dates"
    by (simp add: monday_rule_def monday_rule_other_dates_def)
  from stored_dates_ignored [OF h, of new_york_2024 1704067200000 1704326400000] h s e
  show ?thesis by simp
qed

subsection \<open>The date of an override in a zone west of UTC\<close>

text \<open>
  Claim C2 says that an override's \<open>date\<close> is anchored like a walked day, its civil date
  taken as local to the zone. The code converts it: \<open>dayjs.tz\<close> is given a \<open>Date\<close>, not
  a string, and shifts the instant by the zone's offset before the hour and minute are
  overwritten. In New York the override stored for 2024-01-15 becomes an interval on
  2024-01-14, filed under the key of that day, and the recurring interval of Monday
  2024-01-15 is not replaced; the recurring path anchors the same midnight on 2024-01-15.
\<close>

theorem override_date_is_converted:
  "format_YYYY_MM_DD (start (override_interval new_york_2024 1705276800000 jan15_override)) =
     ''2024-01-14'' \<and>
   hour (start (override_interval new_york_2024 1705276800000 jan15_override)) = 10 \<and>
   format_YYYY_MM_DD (tz_keepLocalTime new_york_2024 (dayjs_utc 1705276800000)) = ''2024-01-15'' \<and>
   map fst (dateOverrides new_york_2024 [monday_rule, jan15_override]) = [''2024-01-14''] \<and>
   map fst (workingDates new_york_2024 [monday_rule, jan15_override] 1705276800000 1705363200000) =
     [''2024-01-15''] \<and>
   getAvailability new_york_2024 [monday_rule, jan15_override] 1705276800000 1705363200000 =
     [working_interval new_york_2024 monday_rule (dayjs_utc 1705276800000),
      override_interval new_york_2024 1705276800000 jan15_override]"
  by code_simp

subsection \<open>Stores that extend a store\<close>

lemma extends_refl: "extends h h"
  by (simp add: extends_def)

lemma extends_trans: "extends h1 h2 \<Longrightarrow> extends h2 h3 \<Longrightarrow> extends h1 h3"
proof -
  assume a: "extends h1 h2" and b: "extends h2 h3"
  have "take (length h1) h3 = take (length h1) (take (length h2) h3)"
    using a by (simp add: extends_def min_def)
  also have "\<dots> = h1" using a b by (simp add: extends_def)
  finally show ?thesis using a b by (simp add: extends_def)
qed

lemma extends_alloc: "store_alloc v h = (a, h') \<Longrightarrow> extends h h'"
  by (auto simp: store_alloc_def extends_def)

lemma extends_write:
  "extends hb h \<Longrightarrow> length hb \<le> a \<Longrightarrow> extends hb (store_write a v h)"
  by (simp add: extends_def store_write_def)

lemma extends_nth: "extends h h' \<Longrightarrow> a < length h \<Longrightarrow> h' ! a = h ! a"
proof -
  assume e: "extends h h'" and a: "a < length h"
  have "h ! a = take (length h) h' ! a" using e by (simp add: extends_def)
  then show ?thesis using a by simp
qed

lemma extends_read: "extends h h' \<Longrightarrow> store_read h a = Some c \<Longrightarrow> store_read h' a = Some c"
  using extends_nth [of h h' a]
  by (auto simp: store_read_def extends_def split: if_splits)

lemma extends_date_at: "extends h h' \<Longrightarrow> date_at h a = Some t \<Longrightarrow> date_at h' a = Some t"
  by (auto simp: date_at_def dest: extends_read split: option.splits jsobj.splits)

lemma extends_numbers_at:
  "extends h h' \<Longrightarrow> numbers_at h a = Some t \<Longrightarrow> numbers_at h' a = Some t"
  by (auto simp: numbers_at_def dest: extends_read split: option.splits jsobj.splits)

lemma extends_rules_at:
  "extends h h' \<Longrightarrow> rules_at h a = Some t \<Longrightarrow> rules_at h' a = Some t"
  by (auto simp: rules_at_def dest: extends_read split: option.splits jsobj.splits)

lemma extends_record_at:
  "extends h h' \<Longrightarrow> record_at h a = Some t \<Longrightarrow> record_at h' a = Some t"
  by (auto simp: record_at_def dest: extends_read split: option.splits jsobj.splits)

lemma extends_intervals_at:
  "extends h h' \<Longrightarrow> intervals_at h a = Some t \<Longrightarrow> intervals_at h' a = Some t"
  by (auto simp: intervals_at_def dest: extends_read split: option.splits jsobj.splits)

lemma extends_optional_at:
  assumes "\<And>a t. f h a = Some t \<Longrightarrow> f h' a = Some t"
  shows "optional_at f h ao = Some t \<Longrightarrow> optional_at f h' ao = Some t"
  using assms by (auto simp: optional_at_def split: option.splits)

lemma extends_rule_at:
  assumes "extends h h'" and "rule_at h a = Some r"
  shows "rule_at h' a = Some r"
proof -
  from assms(2) obtain s e d ds where c: "store_read h a = Some (RuleObj s e d ds)"
    by (auto simp: rule_at_def split: option.splits jsobj.splits)
  from assms(2) c obtain st et dt dys where
    f: "date_at h s = Some st" "date_at h e = Some et"
       "optional_at date_at h d = Some dt" "optional_at numbers_at h ds = Some dys"
    and r: "r = \<lparr>startTime = st, endTime = et, date = dt, days = dys\<rparr>"
    by (auto simp: rule_at_def split: Option.bind_splits)
  have "store_read h' a = Some (RuleObj s e d ds)"
    using assms(1) c by (rule extends_read)
  moreover have "date_at h' s = Some st" "date_at h' e = Some et"
    using assms(1) f by (auto intro: extends_date_at)
  moreover have "optional_at date_at h' d = Some dt"
    using f(3) assms(1) by (auto intro: extends_optional_at extends_date_at)
  moreover have "optional_at numbers_at h' ds = Some dys"
    using f(4) assms(1) by (auto intro: extends_optional_at extends_numbers_at)
  ultimately show ?thesis using r by (simp add: rule_at_def)
qed

subsection \<open>Records in the store\<close>

lemma holds_keys: "holds h kvs m \<Longrightarrow> map fst kvs = map fst m"
  unfolding holds_def by (induction kvs m rule: list_all2_induct) auto

lemma holds_map_of:
  "holds h kvs m \<Longrightarrow> map_of kvs k = Some a \<Longrightarrow> \<exists>v. map_of m k = Some v \<and> intervals_at h a = Some v"
  unfolding holds_def by (induction kvs m rule: list_all2_induct) (auto split: if_splits)

lemma holds_map_of_None: "holds h kvs m \<Longrightarrow> map_of kvs k = None \<Longrightarrow> map_of m k = None"
  unfolding holds_def by (induction kvs m rule: list_all2_induct) (auto split: if_splits)

lemma holds_map_of_Some:
  "holds h kvs m \<Longrightarrow> map_of m k = Some v \<Longrightarrow> \<exists>a. map_of kvs k = Some a \<and> intervals_at h a = Some v"
  unfolding holds_def by (induction kvs m rule: list_all2_induct) (auto split: if_splits)

lemma holds_bound: "holds h kvs m \<Longrightarrow> list_all (\<lambda>ka. snd ka < length h) kvs"
  unfolding holds_def
  by (induction kvs m rule: list_all2_induct)
     (auto simp: intervals_at_def store_read_def split: if_splits)

lemma holds_frame:
  assumes "holds h kvs m"
    and "\<And>a. a \<in> snd ` set kvs \<Longrightarrow> intervals_at h' a = intervals_at h a"
  shows "holds h' kvs m"
  using assms unfolding holds_def
  by (induction kvs m rule: list_all2_induct) auto

lemma holds_update:
  assumes "holds h kvs m" and "distinct (map snd kvs)" and "map_of kvs k = Some a0"
    and "\<And>a. a \<in> snd ` set kvs \<Longrightarrow> a \<noteq> a0 \<Longrightarrow> intervals_at h' a = intervals_at h a"
    and "intervals_at h' a0 = Some w"
  shows "holds h' kvs (obj_set k w m)"
  using assms unfolding holds_def
proof (induction kvs m rule: list_all2_induct)
  case Nil
  then show ?case by simp
next
  case (Cons ka kvs kv m)
  show ?case
  proof (cases "fst ka = k")
    case True
    then have a0: "snd ka = a0" using Cons.prems(2) by (cases ka) auto
    have "a0 \<notin> snd ` set kvs" using Cons.prems(1) a0 by auto
    then have fr: "intervals_at h' a = intervals_at h a" if "a \<in> snd ` set kvs" for a
      using Cons.prems(3) [of a] that by auto
    have "holds h kvs m" using Cons.hyps(2) by (simp add: holds_def)
    then have "holds h' kvs m" using fr by (rule holds_frame)
    then have "list_all2 (\<lambda>ka kv. fst ka = fst kv \<and> intervals_at h' (snd ka) = Some (snd kv)) kvs m"
      by (simp add: holds_def)
    then show ?thesis
      using True Cons.hyps(1) a0 Cons.prems(4) by (cases kv) auto
  next
    case False
    then have m: "map_of kvs k = Some a0" using Cons.prems(2) by (cases ka) auto
    then have "a0 \<in> snd ` set kvs" by (force dest: map_of_SomeD)
    then have ne: "snd ka \<noteq> a0" using Cons.prems(1) by auto
    have "list_all2 (\<lambda>ka kv. fst ka = fst kv \<and> intervals_at h' (snd ka) = Some (snd kv)) kvs
        (obj_set k w m)"
      using Cons.IH Cons.prems m by auto
    moreover have "intervals_at h' (snd ka) = Some (snd kv)"
      using Cons.hyps(1) Cons.prems(3) [of "snd ka"] ne by auto
    ultimately show ?thesis
      using False Cons.hyps(1) by (cases kv) auto
  qed
qed

lemma holds_snoc:
  assumes "holds h kvs m" and "intervals_at h a = Some v"
  shows "holds h (kvs @ [(k, a)]) (m @ [(k, v)])"
  using assms unfolding holds_def by (simp add: list_all2_appendI)

lemma obj_set_same: "map_of m k = Some v \<Longrightarrow> obj_set k v m = m"
  by (induction m) (auto split: if_splits)

lemma map_of_None_keys: "map_of m k = None \<Longrightarrow> k \<notin> fst ` set m"
  by (simp add: map_of_eq_None_iff)

subsection \<open>Reads after a write\<close>

lemma record_at_bound: "record_at h a = Some kvs \<Longrightarrow> a < length h"
  by (auto simp: record_at_def store_read_def split: if_splits)

lemma intervals_at_write_other:
  "a \<noteq> a' \<Longrightarrow> intervals_at (store_write a v h) a' = intervals_at h a'"
  by (simp add: intervals_at_def store_read_def store_write_def)

lemma intervals_at_write_same:
  "a < length h \<Longrightarrow> intervals_at (store_write a (IntervalsObj xs) h) a = Some xs"
  by (simp add: intervals_at_def store_read_def store_write_def)

lemma record_at_write_other:
  "a \<noteq> a' \<Longrightarrow> record_at (store_write a v h) a' = record_at h a'"
  by (simp add: record_at_def store_read_def store_write_def)

lemma record_at_write_same:
  "a < length h \<Longrightarrow> record_at (store_write a (RecordObj kvs) h) a = Some kvs"
  by (simp add: record_at_def store_read_def store_write_def)

lemma intervals_at_append:
  "a < length h \<Longrightarrow> intervals_at (h @ [v]) a = intervals_at h a"
  by (simp add: intervals_at_def store_read_def nth_append)

lemma intervals_at_append_new: "intervals_at (h @ [IntervalsObj xs]) (length h) = Some xs"
  by (simp add: intervals_at_def store_read_def)

lemma extends_append: "extends hb h \<Longrightarrow> extends hb (h @ [v])"
  by (simp add: extends_def)

subsection \<open>The writes of the two reductions\<close>

lemma ensure_key_rel:
  assumes "acc_rel hb acc h kvs m"
  shows "\<exists>h1 kvs1. ensure_key_h k acc h = Some h1 \<and>
           acc_rel hb acc h1 kvs1 (obj_set k (lookup_list m k) m)"
proof (cases "map_of kvs k")
  case (Some a)
  from assms have hold: "holds h kvs m" and rec: "record_at h acc = Some kvs"
    by (simp_all add: acc_rel_def)
  obtain v where v: "map_of m k = Some v"
    using holds_map_of [OF hold Some] by blast
  have same: "obj_set k a kvs = kvs" using Some by (rule obj_set_same)
  define h1 where "h1 = store_write acc (RecordObj kvs) h"
  have e: "ensure_key_h k acc h = Some h1"
    using rec Some same by (simp add: ensure_key_h_def h1_def)
  have "holds h1 kvs m"
  proof (rule holds_frame [OF hold])
    fix a' assume "a' \<in> snd ` set kvs"
    then have "a' \<noteq> acc" using assms by (auto simp: acc_rel_def list_all_iff)
    then show "intervals_at h1 a' = intervals_at h a'"
      by (simp add: h1_def intervals_at_write_other)
  qed
  then have "acc_rel hb acc h1 kvs m"
    using assms record_at_bound [OF rec]
    by (simp add: acc_rel_def h1_def extends_write record_at_write_same)
  moreover have "obj_set k (lookup_list m k) m = m"
    using v by (simp add: lookup_list_def obj_set_same)
  ultimately show ?thesis using e by auto
next
  case None
  from assms have hold: "holds h kvs m" and rec: "record_at h acc = Some kvs"
    and ext: "extends hb h" and acc: "length hb \<le> acc"
    and dist: "distinct (map snd kvs)"
    and out: "list_all (\<lambda>ka. length hb \<le> snd ka \<and> snd ka \<noteq> acc) kvs"
    by (simp_all add: acc_rel_def)
  have lt: "acc < length h" using rec by (rule record_at_bound)
  have mk: "map_of m k = None" using hold None by (rule holds_map_of_None)
  have bound: "list_all (\<lambda>ka. snd ka < length h) kvs" using hold by (rule holds_bound)
  define a where "a = length h"
  define kvs1 where "kvs1 = kvs @ [(k, a)]"
  define h1 where "h1 = store_write acc (RecordObj kvs1) (h @ [IntervalsObj []])"
  have fresh: "obj_set k a kvs = kvs1"
    using None by (simp add: kvs1_def obj_set_fresh map_of_None_keys)
  have e: "ensure_key_h k acc h = Some h1"
    using rec None fresh by (simp add: ensure_key_h_def h1_def store_alloc_def a_def)
  have m1: "obj_set k (lookup_list m k) m = m @ [(k, [])]"
    using mk by (simp add: lookup_list_def obj_set_fresh map_of_None_keys)
  have "extends hb h1"
    unfolding h1_def using ext acc by (intro extends_write extends_append)
  moreover have "record_at h1 acc = Some kvs1"
    unfolding h1_def using lt by (intro record_at_write_same) simp
  moreover have "distinct (map snd kvs1)"
    using dist bound by (auto simp: kvs1_def a_def list_all_iff)
  moreover have "list_all (\<lambda>ka. length hb \<le> snd ka \<and> snd ka \<noteq> acc) kvs1"
    using out ext lt by (auto simp: kvs1_def a_def extends_def)
  moreover have "holds h1 kvs1 (m @ [(k, [])])"
  proof -
    have "holds (h @ [IntervalsObj []]) kvs m"
    proof (rule holds_frame [OF hold])
      fix a' assume "a' \<in> snd ` set kvs"
      then have "a' < length h" using bound by (auto simp: list_all_iff)
      then show "intervals_at (h @ [IntervalsObj []]) a' = intervals_at h a'"
        by (rule intervals_at_append)
    qed
    then have "holds (h @ [IntervalsObj []]) kvs1 (m @ [(k, [])])"
      unfolding kvs1_def a_def by (rule holds_snoc) (rule intervals_at_append_new)
    then show ?thesis
    proof (rule holds_frame)
      fix a' assume "a' \<in> snd ` set kvs1"
      then have "a' \<noteq> acc" using out lt by (auto simp: kvs1_def a_def list_all_iff)
      then show "intervals_at h1 a' = intervals_at (h @ [IntervalsObj []]) a'"
        by (simp add: h1_def intervals_at_write_other)
    qed
  qed
  ultimately have "acc_rel hb acc h1 kvs1 (m @ [(k, [])])"
    using acc by (simp add: acc_rel_def)
  then show ?thesis using e m1 by auto
qed

lemma push_rel:
  assumes "acc_rel hb acc h kvs m" and "map_of m k = Some v"
  shows "\<exists>h1. push_h k i acc h = Some h1 \<and> acc_rel hb acc h1 kvs (obj_set k (v @ [i]) m)"
proof -
  from assms have hold: "holds h kvs m" and rec: "record_at h acc = Some kvs"
    and ext: "extends hb h" and acc: "length hb \<le> acc"
    and dist: "distinct (map snd kvs)"
    and out: "list_all (\<lambda>ka. length hb \<le> snd ka \<and> snd ka \<noteq> acc) kvs"
    by (simp_all add: acc_rel_def)
  obtain a where a: "map_of kvs k = Some a" and xs: "intervals_at h a = Some v"
    using holds_map_of_Some [OF hold assms(2)] by blast
  have ain: "a \<in> snd ` set kvs" using a by (force dest: map_of_SomeD)
  then have a_out: "length hb \<le> a" and a_acc: "a \<noteq> acc"
    using out by (auto simp: list_all_iff)
  have a_lt: "a < length h"
    using holds_bound [OF hold] ain by (auto simp: list_all_iff)
  define h1 where "h1 = store_write a (IntervalsObj (v @ [i])) h"
  have p: "push_h k i acc h = Some h1"
    using rec a xs by (simp add: push_h_def h1_def)
  have "holds h1 kvs (obj_set k (v @ [i]) m)"
    using hold dist a
  proof (rule holds_update)
    show "intervals_at h1 a = Some (v @ [i])"
      unfolding h1_def using a_lt by (rule intervals_at_write_same)
  next
    fix a' assume "a' \<noteq> a"
    then show "intervals_at h1 a' = intervals_at h a'"
      by (simp add: h1_def intervals_at_write_other)
  qed
  moreover have "record_at h1 acc = Some kvs"
    using rec a_acc by (simp add: h1_def record_at_write_other)
  moreover have "extends hb h1"
    unfolding h1_def using ext a_out by (rule extends_write)
  ultimately have "acc_rel hb acc h1 kvs (obj_set k (v @ [i]) m)"
    using acc dist out by (simp add: acc_rel_def)
  then show ?thesis using p by auto
qed

lemma map_of_obj_set_same: "map_of (obj_set k v m) k = Some v"
  by (simp add: map_of_obj_set)

lemma ensure_push_rel:
  assumes "acc_rel hb acc h kvs m"
  shows "\<exists>h1 kvs1. ensure_key_h k acc h = Some h1 \<and> extends hb h1 \<and>
           (\<forall>i. \<exists>h2. push_h k i acc h1 = Some h2 \<and> acc_rel hb acc h2 kvs1 (push_under k i m))"
proof -
  obtain h1 kvs1 where e: "ensure_key_h k acc h = Some h1"
    and r: "acc_rel hb acc h1 kvs1 (obj_set k (lookup_list m k) m)"
    using ensure_key_rel [OF assms] by blast
  have "\<exists>h2. push_h k i acc h1 = Some h2 \<and> acc_rel hb acc h2 kvs1 (push_under k i m)" for i
    using push_rel [OF r map_of_obj_set_same, of i]
    by (simp add: push_under_eq obj_set_twice)
  moreover have "extends hb h1" using r by (simp add: acc_rel_def)
  ultimately show ?thesis using e by blast
qed

lemma working_body_rel:
  assumes "acc_rel hb acc h kvs m" and "rule_at hb b = Some block"
  shows "\<exists>h1 kvs1. working_body_h timeZone b d acc h = Some h1 \<and>
           acc_rel hb acc h1 kvs1 (working_body timeZone block d m)"
proof -
  have ext: "extends hb h" using assms(1) by (simp add: acc_rel_def)
  have r: "rule_at h b = Some block" using ext assms(2) by (rule extends_rule_at)
  show ?thesis
  proof (cases "days_includes (days block) (day (working_start timeZone block d))")
    case False
    then show ?thesis
      using r assms(1) by (auto simp: working_body_h_def working_body_def Let_def)
  next
    case True
    define k where "k = format_YYYY_MM_DD (working_start timeZone block d)"
    define i where "i = \<lparr>start = working_start timeZone block d,
                           end' = working_end timeZone block d\<rparr>"
    obtain h1 kvs1 where e: "ensure_key_h k acc h = Some h1" and ext1: "extends hb h1"
      and p: "\<exists>h2. push_h k i acc h1 = Some h2 \<and> acc_rel hb acc h2 kvs1 (push_under k i m)"
      using ensure_push_rel [OF assms(1), of k] by blast
    have r1: "rule_at h1 b = Some block" using ext1 assms(2) by (rule extends_rule_at)
    obtain h2 where p2: "push_h k i acc h1 = Some h2"
      and a2: "acc_rel hb acc h2 kvs1 (push_under k i m)"
      using p by blast
    have "working_body_h timeZone b d acc h = Some h2"
      using r True e r1 p2 by (simp add: working_body_h_def Let_def k_def i_def)
    moreover have "working_body timeZone block d m = push_under k i m"
      using True by (simp add: working_body_def Let_def k_def i_def)
    ultimately show ?thesis using a2 by auto
  qed
qed

lemma for_each_day_rel:
  assumes "date_at hb dateTo = Some t" and "rule_at hb b = Some block"
  shows "acc_rel hb acc h kvs m \<Longrightarrow>
         \<exists>h1 kvs1. for_each_day_h (\<lambda>d. working_body_h timeZone b d acc) dateTo d h = Some h1 \<and>
           acc_rel hb acc h1 kvs1 (fold (working_body timeZone block) (day_walk (dayjs_utc t) d) m)"
proof (induction "dayjs_utc t" d arbitrary: h kvs m rule: day_walk.induct)
  case (1 d)
  have ext: "extends hb h" using "1.prems" by (simp add: acc_rel_def)
  have t: "date_at h dateTo = Some t" using ext assms(1) by (rule extends_date_at)
  show ?case
  proof (cases "isBefore d (dayjs_utc t)")
    case False
    then show ?thesis
      using t "1.prems"
      by (subst for_each_day_h.simps) (auto simp: day_walk.simps [of "dayjs_utc t" d])
  next
    case True
    obtain h1 kvs1 where b: "working_body_h timeZone b d acc h = Some h1"
      and r: "acc_rel hb acc h1 kvs1 (working_body timeZone block d m)"
      using working_body_rel [OF "1.prems" assms(2)] by blast
    obtain h2 kvs2 where l: "for_each_day_h (\<lambda>d. working_body_h timeZone b d acc) dateTo
          (add_day 1 d) h1 = Some h2"
      and r2: "acc_rel hb acc h2 kvs2 (fold (working_body timeZone block)
          (day_walk (dayjs_utc t) (add_day 1 d)) (working_body timeZone block d m))"
      using "1.hyps" [OF True r] by blast
    have "for_each_day_h (\<lambda>d. working_body_h timeZone b d acc) dateTo d h = Some h2"
      using t True b l by (subst for_each_day_h.simps) simp
    then show ?thesis
      using r2 True by (auto simp: day_walk.simps [of "dayjs_utc t" d])
  qed
qed

lemma working_callback_rel:
  assumes "date_at hb dateFrom = Some f" and "date_at hb dateTo = Some t"
    and "rule_at hb b = Some block" and "acc_rel hb acc h kvs m"
  shows "\<exists>h1 kvs1. working_callback_h timeZone dateFrom dateTo acc b h = Some h1 \<and>
           acc_rel hb acc h1 kvs1 (working_step timeZone f t block m)"
proof -
  have "extends hb h" using assms(4) by (simp add: acc_rel_def)
  then have "date_at h dateFrom = Some f" using assms(1) by (rule extends_date_at)
  then show ?thesis
    using for_each_day_rel [OF assms(2,3,4), of timeZone "dayjs_utc (toISOdate f)"]
    by (simp add: working_callback_h_def working_step_def walked_days_def)
qed

lemma reduce_working_rel:
  assumes "date_at hb dateFrom = Some f" and "date_at hb dateTo = Some t"
  shows "list_all2 (\<lambda>b block. rule_at hb b = Some block) bs blocks \<Longrightarrow>
         acc_rel hb acc h kvs m \<Longrightarrow>
         \<exists>h1 kvs1. reduce_h (working_callback_h timeZone dateFrom dateTo acc) bs h = Some h1 \<and>
           acc_rel hb acc h1 kvs1 (fold (working_step timeZone f t) blocks m)"
proof (induction bs blocks arbitrary: h kvs m rule: list_all2_induct)
  case Nil
  then show ?case by auto
next
  case (Cons b bs block blocks)
  obtain h1 kvs1 where c: "working_callback_h timeZone dateFrom dateTo acc b h = Some h1"
    and r: "acc_rel hb acc h1 kvs1 (working_step timeZone f t block m)"
    using working_callback_rel [OF assms Cons.hyps(1) Cons.prems] by blast
  from Cons.IH [OF r] c show ?case by auto
qed

lemma override_body_rel:
  assumes "acc_rel hb acc h kvs m" and "rule_at hb b = Some r"
  shows "\<exists>h1 kvs1. override_body_h timeZone acc b h = Some h1 \<and>
           acc_rel hb acc h1 kvs1 (override_body timeZone r m)"
proof -
  have ext: "extends hb h" using assms(1) by (simp add: acc_rel_def)
  have rh: "rule_at h b = Some r" using ext assms(2) by (rule extends_rule_at)
  show ?thesis
  proof (cases "date r")
    case None
    then show ?thesis
      using rh assms(1) by (auto simp: override_body_h_def override_body_def)
  next
    case (Some d)
    define i where "i = override_interval timeZone d r"
    define k where "k = format_YYYY_MM_DD (start i)"
    obtain h1 kvs1 where e: "ensure_key_h k acc h = Some h1" and ext1: "extends hb h1"
      and p: "\<exists>h2. push_h k i acc h1 = Some h2 \<and> acc_rel hb acc h2 kvs1 (push_under k i m)"
      using ensure_push_rel [OF assms(1), of k] by blast
    have r1: "rule_at h1 b = Some r" using ext1 assms(2) by (rule extends_rule_at)
    obtain h2 where p2: "push_h k i acc h1 = Some h2"
      and a2: "acc_rel hb acc h2 kvs1 (push_under k i m)"
      using p by blast
    have "override_body_h timeZone acc b h = Some h2"
      using rh Some e r1 p2
      by (simp add: override_body_h_def Let_def k_def i_def override_interval_def)
    moreover have "override_body timeZone r m = push_under k i m"
      using Some by (simp add: override_body_def Let_def k_def i_def)
    ultimately show ?thesis using a2 by auto
  qed
qed

lemma reduce_override_rel:
  "list_all2 (\<lambda>b block. rule_at hb b = Some block) bs blocks \<Longrightarrow>
   acc_rel hb acc h kvs m \<Longrightarrow>
   \<exists>h1 kvs1. reduce_h (override_body_h timeZone acc) bs h = Some h1 \<and>
     acc_rel hb acc h1 kvs1 (fold (override_body timeZone) blocks m)"
proof (induction bs blocks arbitrary: h kvs m rule: list_all2_induct)
  case Nil
  then show ?case by auto
next
  case (Cons b bs block blocks)
  obtain h1 kvs1 where c: "override_body_h timeZone acc b h = Some h1"
    and r: "acc_rel hb acc h1 kvs1 (override_body timeZone block m)"
    using override_body_rel [OF Cons.prems Cons.hyps(1)] by blast
  from Cons.IH [OF r] c show ?case by auto
qed

subsection \<open>The filtered arrays\<close>

lemma those_rules_read: "rules_read h rs rules \<Longrightarrow> those (map (rule_at h) rs) = Some rules"
  unfolding rules_read_def by (induction rs rules rule: list_all2_induct) auto

lemma rules_read_filter:
  "rules_read h rs rules \<Longrightarrow>
   rules_read h (map fst (filter (\<lambda>(a, v). p v) (zip rs rules))) (filter p rules)"
  unfolding rules_read_def by (induction rs rules rule: list_all2_induct) auto

lemma rules_read_extends: "extends h h' \<Longrightarrow> rules_read h rs rules \<Longrightarrow> rules_read h' rs rules"
  unfolding rules_read_def
  by (erule list_all2_mono) (rule extends_rule_at)

lemma rules_at_append_new: "rules_at (h @ [RulesObj rs]) (length h) = Some rs"
  by (simp add: rules_at_def store_read_def)

lemma record_at_append_new: "record_at (h @ [RecordObj kvs]) (length h) = Some kvs"
  by (simp add: record_at_def store_read_def)

lemma filter_h_rel:
  assumes "rules_at h av = Some rs" and "rules_read h rs rules"
  shows "\<exists>rs'. filter_h p av h = Some (length h, h @ [RulesObj rs']) \<and>
           rules_read h rs' (filter p rules)"
  using assms
  by (auto simp: filter_h_def those_rules_read store_alloc_def intro: rules_read_filter)

lemma acc_rel_init: "acc_rel hb (length hb) (hb @ [RecordObj []]) [] []"
  by (simp add: acc_rel_def extends_def record_at_append_new holds_def)

subsection \<open>What the two reductions leave in the store\<close>

lemma workingDates_h_rel:
  assumes "rules_at h av = Some rs" and "rules_read h rs rules"
    and "date_at h dateFrom = Some f" and "date_at h dateTo = Some t"
  shows "\<exists>acc h' kvs. workingDates_h timeZone av dateFrom dateTo h = Some (acc, h') \<and>
           extends h h' \<and> length h \<le> acc \<and> record_at h' acc = Some kvs \<and>
           holds h' kvs (workingDates timeZone rules f t)"
proof -
  obtain rs' where fl: "filter_h (\<lambda>v. days v \<noteq> None) av h = Some (length h, h @ [RulesObj rs'])"
    and rr: "rules_read h rs' (filter (\<lambda>v. days v \<noteq> None) rules)"
    using filter_h_rel [OF assms(1,2)] by blast
  define hb where "hb = h @ [RulesObj rs']"
  have ext: "extends h hb" by (simp add: hb_def extends_def)
  have rrb: "list_all2 (\<lambda>b block. rule_at hb b = Some block) rs'
      (filter (\<lambda>v. days v \<noteq> None) rules)"
    using rules_read_extends [OF ext rr] by (simp add: rules_read_def)
  have fb: "date_at hb dateFrom = Some f" using ext assms(3) by (rule extends_date_at)
  have tb: "date_at hb dateTo = Some t" using ext assms(4) by (rule extends_date_at)
  have bs: "rules_at (hb @ [RecordObj []]) (length h) = Some rs'"
    by (simp add: hb_def rules_at_def store_read_def nth_append)
  obtain h1 kvs1 where red: "reduce_h (working_callback_h timeZone dateFrom dateTo (length hb)) rs'
        (hb @ [RecordObj []]) = Some h1"
    and rel: "acc_rel hb (length hb) h1 kvs1
        (fold (working_step timeZone f t) (filter (\<lambda>v. days v \<noteq> None) rules) [])"
    using reduce_working_rel [OF fb tb rrb acc_rel_init] by blast
  have "workingDates_h timeZone av dateFrom dateTo h = Some (length hb, h1)"
    using fl bs red by (simp add: workingDates_h_def store_alloc_def hb_def)
  moreover have "extends h h1"
    using ext rel by (auto simp: acc_rel_def intro: extends_trans)
  moreover have "length h \<le> length hb" by (simp add: hb_def)
  ultimately show ?thesis
    using rel by (auto simp: acc_rel_def workingDates_fold)
qed

lemma dateOverrides_h_rel:
  assumes "rules_at h av = Some rs" and "rules_read h rs rules"
  shows "\<exists>acc h' kvs. dateOverrides_h timeZone av h = Some (acc, h') \<and>
           extends h h' \<and> length h \<le> acc \<and> record_at h' acc = Some kvs \<and>
           holds h' kvs (dateOverrides timeZone rules)"
proof -
  obtain rs' where fl: "filter_h (\<lambda>a. date a \<noteq> None) av h = Some (length h, h @ [RulesObj rs'])"
    and rr: "rules_read h rs' (filter (\<lambda>a. date a \<noteq> None) rules)"
    using filter_h_rel [OF assms(1,2)] by blast
  define hb where "hb = h @ [RulesObj rs']"
  have ext: "extends h hb" by (simp add: hb_def extends_def)
  have rrb: "list_all2 (\<lambda>b block. rule_at hb b = Some block) rs'
      (filter (\<lambda>a. date a \<noteq> None) rules)"
    using rules_read_extends [OF ext rr] by (simp add: rules_read_def)
  have bs: "rules_at (hb @ [RecordObj []]) (length h) = Some rs'"
    by (simp add: hb_def rules_at_def store_read_def nth_append)
  obtain h1 kvs1 where red: "reduce_h (override_body_h timeZone (length hb)) rs'
        (hb @ [RecordObj []]) = Some h1"
    and rel: "acc_rel hb (length hb) h1 kvs1
        (fold (override_body timeZone) (filter (\<lambda>a. date a \<noteq> None) rules) [])"
    using reduce_override_rel [OF rrb acc_rel_init] by blast
  have "dateOverrides_h timeZone av h = Some (length hb, h1)"
    using fl bs red by (simp add: dateOverrides_h_def store_alloc_def hb_def)
  moreover have "extends h h1"
    using ext rel by (auto simp: acc_rel_def intro: extends_trans)
  moreover have "length h \<le> length hb" by (simp add: hb_def)
  ultimately show ?thesis
    using rel by (auto simp: acc_rel_def dateOverrides_def)
qed

subsection \<open>The spread and the flattening on references\<close>

lemma holds_obj_set:
  "holds h kvs m \<Longrightarrow> intervals_at h a = Some v \<Longrightarrow> holds h (obj_set k a kvs) (obj_set k v m)"
  unfolding holds_def
  by (induction kvs m rule: list_all2_induct) auto

lemma holds_fold_obj_set:
  "holds h xs ys \<Longrightarrow> holds h kvs m \<Longrightarrow>
   holds h (fold (\<lambda>(k, v). obj_set k v) xs kvs) (fold (\<lambda>(k, v). obj_set k v) ys m)"
proof (induction xs arbitrary: ys kvs m)
  case Nil
  then show ?case by (simp add: holds_def)
next
  case (Cons x xs)
  then obtain y ys' where ys: "ys = y # ys'" and xy: "fst x = fst y"
    and iv: "intervals_at h (snd x) = Some (snd y)" and rest: "holds h xs ys'"
    by (auto simp: holds_def list_all2_Cons1)
  have "holds h (obj_set (fst x) (snd x) kvs) (obj_set (fst y) (snd y) m)"
    using Cons.prems(2) iv xy by (simp add: holds_obj_set)
  from Cons.IH [OF rest this] show ?case
    using ys by (simp add: case_prod_beta)
qed

lemma holds_spread2:
  "holds h a1 m1 \<Longrightarrow> holds h a2 m2 \<Longrightarrow> holds h (spread2 a1 a2) (spread2 m1 m2)"
  unfolding spread2_def
  by (rule holds_fold_obj_set) (simp_all add: holds_def list_all2_appendI)

lemma holds_those:
  "holds h kvs m \<Longrightarrow> those (map (intervals_at h) (map snd kvs)) = Some (map snd m)"
  unfolding holds_def by (induction kvs m rule: list_all2_induct) auto

lemma holds_extends: "extends h h' \<Longrightarrow> holds h kvs m \<Longrightarrow> holds h' kvs m"
  unfolding holds_def
  by (erule list_all2_mono) (auto intro: extends_intervals_at)

lemma arrays_at_append_new: "arrays_at (h @ [ArraysObj xs]) (length h) = Some xs"
  by (simp add: arrays_at_def store_read_def)

lemma intervals_at_append_last: "intervals_at (h @ [IntervalsObj xs]) (length h) = Some xs"
  by (simp add: intervals_at_def store_read_def)

subsection \<open>Purity\<close>

text \<open>
  Claim C9. Run on a store that holds the availability array, its rule objects with
  their dates and day lists, and the two dates of the range, the function returns; every
  object the store held before the call is unchanged after it; the returned array lies
  at an address the store did not have before the call; and its contents are the value
  of \<open>getAvailability\<close> on the rules and dates read from the store, so the result depends
  on nothing else.
\<close>

theorem inputs_unchanged:
  assumes "rules_at h availability = Some rs" and "rules_read h rs rules"
    and "date_at h dateFrom = Some f" and "date_at h dateTo = Some t"
  shows "\<exists>r h'. getAvailability_h timeZone availability dateFrom dateTo h = Some (r, h') \<and>
           take (length h) h' = h \<and> length h \<le> r \<and>
           intervals_at h' r = Some (getAvailability timeZone rules f t)"
proof -
  obtain wa h1 kw where w: "workingDates_h timeZone availability dateFrom dateTo h = Some (wa, h1)"
    and e1: "extends h h1" and rw: "record_at h1 wa = Some kw"
    and hw: "holds h1 kw (workingDates timeZone rules f t)"
    using workingDates_h_rel [OF assms] by blast
  have rs1: "rules_at h1 availability = Some rs" using e1 assms(1) by (rule extends_rules_at)
  have rr1: "rules_read h1 rs rules" using e1 assms(2) by (rule rules_read_extends)
  obtain oa h2 ko where o: "dateOverrides_h timeZone availability h1 = Some (oa, h2)"
    and e2: "extends h1 h2" and ro: "record_at h2 oa = Some ko"
    and ho: "holds h2 ko (dateOverrides timeZone rules)"
    using dateOverrides_h_rel [OF rs1 rr1] by blast
  have rw2: "record_at h2 wa = Some kw" using e2 rw by (rule extends_record_at)
  have hw2: "holds h2 kw (workingDates timeZone rules f t)" using e2 hw by (rule holds_extends)
  define km where "km = spread2 kw ko"
  define mm where "mm = spread2 (workingDates timeZone rules f t) (dateOverrides timeZone rules)"
  define h3 where "h3 = h2 @ [RecordObj km]"
  define h4 where "h4 = h3 @ [ArraysObj (map snd km)]"
  define h5 where "h5 = h4 @ [IntervalsObj (concat (map snd mm))]"
  have e4: "extends h2 h4" by (simp add: h4_def h3_def extends_def)
  have "holds h2 km mm" unfolding km_def mm_def using hw2 ho by (rule holds_spread2)
  then have "holds h4 km mm" using e4 by (rule holds_extends [rotated])
  then have th: "those (map (intervals_at h4) (map snd km)) = Some (map snd mm)"
    by (rule holds_those)
  have rm: "record_at h3 (length h2) = Some km" by (simp add: h3_def record_at_append_new)
  have am: "arrays_at h4 (length h3) = Some (map snd km)"
    by (simp add: h4_def arrays_at_append_new)
  have run: "getAvailability_h timeZone availability dateFrom dateTo h = Some (length h4, h5)"
    using w o rw2 ro rm am th unfolding h5_def h4_def h3_def km_def
    by (simp add: getAvailability_h_def store_alloc_def)
  have "extends h h2" using e1 e2 by (rule extends_trans)
  moreover have "extends h2 h5" by (simp add: h5_def h4_def h3_def extends_def)
  ultimately have e5: "extends h h5" by (rule extends_trans)
  have "length h \<le> length h2" using \<open>extends h h2\<close> by (simp add: extends_def)
  then have fresh: "length h \<le> length h4" by (simp add: h4_def h3_def)
  have "intervals_at h5 (length h4) = Some (getAvailability timeZone rules f t)"
    by (simp add: h5_def intervals_at_append_last getAvailability_def values_flat_def mm_def)
  then show ?thesis
    using run e5 fresh by (auto simp: extends_def)
qed

theorem inputs_unchanged_witness:
  "\<exists>r h'. getAvailability_h new_york_2024 9 10 11 sample_store = Some (r, h') \<and>
     take (length sample_store) h' = sample_store \<and> length sample_store \<le> r \<and>
     intervals_at h' r =
       Some (getAvailability new_york_2024 [monday_rule, new_year_override]
               1704067200000 1704326400000)"
proof -
  have a: "rules_at sample_store 9 = Some [3, 8]" by code_simp
  have b: "rules_read sample_store [3, 8] [monday_rule, new_year_override]" by code_simp
  have c: "date_at sample_store 10 = Some 1704067200000" by code_simp
  have d: "date_at sample_store 11 = Some 1704326400000" by code_simp
  from inputs_unchanged [OF a b c d] show ?thesis .
qed

end
